theory Spec2Isabelle
  imports Complex_Main "HOL-Library.Sublist" "HOL-Library.AList"
begin

section \<open>Data model\<close>

text \<open>
  Python \<open>bytes\<close> are lists of 8-bit characters (\<^typ>\<open>char\<close> is a byte in HOL); Python
  \<open>str\<close> values are lists of Unicode code points.  Paths and encoding names are
  plain ASCII strings.
\<close>

type_synonym bytes = "char list"
type_synonym uchar = nat
type_synonym ustr = "uchar list"
type_synonym path = string

section \<open>Python string operations used by the program\<close>

definition ustr_of :: "string \<Rightarrow> ustr" where
  "ustr_of s = map of_char s"

text \<open>\<open>sub in s\<close> and \<open>s.find(sub)\<close>: the index of the leftmost occurrence.\<close>

fun py_find :: "'a list \<Rightarrow> 'a list \<Rightarrow> nat option" where
  "py_find sub [] = (if sub = [] then Some 0 else None)"
| "py_find sub (c # cs) =
     (if prefix sub (c # cs) then Some 0 else map_option Suc (py_find sub cs))"

definition py_in :: "'a list \<Rightarrow> 'a list \<Rightarrow> bool" where
  "py_in sub s = (py_find sub s \<noteq> None)"

text \<open>
  \<open>s.split(sep, 1)\<close> for a separator that is not empty, as the two prefixes are: one
  element when \<open>sep\<close> does not occur, otherwise the text before and the text after the
  leftmost occurrence.
\<close>

definition py_split1 :: "'a list \<Rightarrow> 'a list \<Rightarrow> 'a list list" where
  "py_split1 sep s =
     (case py_find sep s of
        None \<Rightarrow> [s]
      | Some i \<Rightarrow> [take i s, drop (i + length sep) s])"

text \<open>
  \<open>str.strip()\<close> removes the characters for which \<open>str.isspace\<close> holds from both
  ends: U+0009..U+000D, U+001C..U+0020, U+0085, U+00A0, U+1680, U+2000..U+200A, U+2028,
  U+2029, U+202F, U+205F and U+3000.
\<close>

definition is_space :: "uchar \<Rightarrow> bool" where
  "is_space c \<longleftrightarrow>
     (9 \<le> c \<and> c \<le> 13) \<or> (28 \<le> c \<and> c \<le> 32) \<or> c = 133 \<or> c = 160 \<or> c = 5760 \<or>
     (8192 \<le> c \<and> c \<le> 8202) \<or> c = 8232 \<or> c = 8233 \<or> c = 8239 \<or> c = 8287 \<or> c = 12288"

definition strip :: "ustr \<Rightarrow> ustr" where
  "strip s = rev (dropWhile is_space (rev (dropWhile is_space s)))"

definition startswith :: "'a list \<Rightarrow> 'a list \<Rightarrow> bool" where
  "startswith s p = prefix p s"

text \<open>\<open>str.lower()\<close> on the ASCII encoding names that the detector compares.\<close>

definition lower :: "string \<Rightarrow> string" where
  "lower s = map (\<lambda>c. if 65 \<le> (of_char c :: nat) \<and> (of_char c :: nat) \<le> 90
                        then char_of ((of_char c :: nat) + 32) else c) s"

definition replacement_char :: uchar where
  "replacement_char = 65533"

section \<open>POSIX path functions\<close>

text \<open>\<open>os.path.basename\<close>, \<open>os.path.dirname\<close> and \<open>os.path.join\<close>, as \<open>posixpath\<close> has them.\<close>

definition basename :: "path \<Rightarrow> path" where
  "basename p = rev (takeWhile (\<lambda>c. c \<noteq> CHR ''/'') (rev p))"

definition dirname :: "path \<Rightarrow> path" where
  "dirname p =
     (let head = rev (dropWhile (\<lambda>c. c \<noteq> CHR ''/'') (rev p))
      in if head \<noteq> [] \<and> head \<noteq> replicate (length head) (CHR ''/'')
         then rev (dropWhile (\<lambda>c. c = CHR ''/'') (rev head)) else head)"

definition path_join :: "path \<Rightarrow> path \<Rightarrow> path" where
  "path_join a b =
     (if startswith b ''/'' then b
      else if a = [] \<or> last a = CHR ''/'' then a @ b
      else a @ ''/'' @ b)"

definition endswith :: "'a list \<Rightarrow> 'a list \<Rightarrow> bool" where
  "endswith s p = suffix p s"

section \<open>The world outside the repository\<close>

text \<open>
  The codecs, \<open>str.isprintable\<close>, \<open>chardet.detect\<close>, \<open>psutil.disk_usage\<close>,
  \<open>tempfile.mkdtemp\<close> and \<open>gzip\<close> belong to Python and its libraries, not to
  the repository; they are parameters of the model.  Scores and confidences are Python
  floats: the model only needs their order, so they range over any linearly ordered
  type \<open>'f\<close>, with the three float operations the source applies as parameters.
\<close>

datatype exn = UnicodeDecodeError | UnicodeError | LookupError | OSError | IndexError

datatype errors_mode = Ignore | Replace

record 'f env =
  decode :: "string \<Rightarrow> errors_mode \<Rightarrow> bytes \<Rightarrow> exn + ustr"
  decode_stream :: "string \<Rightarrow> bytes \<Rightarrow> exn + ustr"
  isprintable :: "uchar \<Rightarrow> bool"
  chardet_detect :: "bytes \<Rightarrow> (string option \<times> 'f) option"
  float_zero :: 'f
  true_div :: "nat \<Rightarrow> nat \<Rightarrow> 'f"
  add_bonus :: "'f \<Rightarrow> 'f"
  min_confidence :: 'f
  disk_free :: "path \<Rightarrow> nat option"
  mkdtemp :: path
  gunzip :: "bytes \<Rightarrow> bytes \<times> exn option"

text \<open>
  \<^item> \<open>decode E enc m b\<close> is \<open>b.decode(enc, errors=m)\<close>;
  \<^item> \<open>decode_stream E enc b\<close> is the text that the file object of
    \<open>open(path, 'r', encoding=enc, errors='replace')\<close> decodes from a file with the
    content \<open>b\<close>, before the translation of line ends, or the exception that opening
    or reading the file raises; it is not always \<open>decode E enc Replace b\<close>: the stream
    decoder of \<open>utf-16\<close> raises \<open>UnicodeError\<close> on a content without byte order mark;
  \<^item> \<open>chardet_detect E b\<close> is the pair \<open>(result['encoding'], result['confidence'])\<close>,
    or \<open>None\<close> when the call raises;
  \<^item> \<open>float_zero\<close> is \<open>0\<close>, \<open>true_div E a b\<close> is \<open>a / b\<close>, \<open>add_bonus E x\<close> is
    \<open>x + 0.3\<close> and \<open>min_confidence\<close> is \<open>0.8\<close>;
  \<^item> \<open>disk_free E d\<close> is \<open>psutil.disk_usage(d).free\<close>, or \<open>None\<close> when it raises;
  \<^item> \<open>mkdtemp E\<close> is the directory that \<open>tempfile.mkdtemp\<close> creates;
  \<^item> \<open>gunzip E b\<close> is what decompressing the archive \<open>b\<close> writes to the output file,
    and the exception that ends the copy, if any.

  A file system maps a path to the content of the regular file there; \<open>None\<close> means
  that opening the path raises \<open>OSError\<close>.
\<close>

type_synonym filesys = "path \<Rightarrow> bytes option"

text \<open>
  \<open>self.stop_requested\<close> is written by another thread.  The model reads it from a
  schedule: \<open>stop k\<close> is the value that the \<open>k\<close>-th read of the flag sees.  The state
  threaded through the processor counts these reads, the bytes read from the target
  file in binary mode, and the lines taken from the target file in text mode.
\<close>

record pstate =
  polls :: nat
  nread :: nat
  lines_read :: nat

definition tick :: "pstate \<Rightarrow> pstate" where
  "tick s = s\<lparr>polls := Suc (polls s)\<rparr>"

definition did_read :: "nat \<Rightarrow> pstate \<Rightarrow> pstate" where
  "did_read n s = s\<lparr>nread := nread s + n\<rparr>"

definition next_line :: "pstate \<Rightarrow> pstate" where
  "next_line s = s\<lparr>lines_read := Suc (lines_read s)\<rparr>"

section \<open>LogProcessor\<close>

text \<open>
  The methods of the class, with the stop flag read from the schedule.  Logging and the
  progress callback, which only writes to the user interface, are left out, and with
  them the byte counter and the large-file flag that feed the callback; the line count
  that the flag is computed from is kept, since it reads the file.
\<close>

definition self_prefixes :: "ustr list" where
  "self_prefixes =
     [ustr_of ''[Server thread/INFO] [net.minecraft.server.MinecraftServer/]:'',
      ustr_of ''[Server thread/INFO] [Console/]:'']"

definition backup_encodings :: "string list" where
  "backup_encodings =
     [''utf-8'', ''gbk'', ''gb2312'', ''gb18030'', ''big5'',
      ''latin1'', ''cp1252'', ''utf-16'', ''utf-16-le'', ''utf-16-be'',
      ''iso-8859-1'', ''iso-8859-15'', ''euc-kr'', ''shift_jis'',
      ''cp932'', ''cp936'', ''cp949'', ''cp950'', ''ascii'']"

subsection \<open>count\_lines\<close>

definition buf_size :: nat where
  "buf_size = 1024 * 1024"

function count_loop :: "(nat \<Rightarrow> bool) \<Rightarrow> bytes \<Rightarrow> nat \<Rightarrow> pstate \<Rightarrow> nat \<times> pstate" where
  "count_loop stop rest lines s =
     (if take buf_size rest = [] then (lines, s)
      else if stop (polls (did_read (length (take buf_size rest)) s))
      then (lines + count_list (take buf_size rest) (CHR 0x0A),
            tick (did_read (length (take buf_size rest)) s))
      else count_loop stop (drop buf_size rest)
             (lines + count_list (take buf_size rest) (CHR 0x0A))
             (tick (did_read (length (take buf_size rest)) s)))"
  by pat_completeness auto
termination
  by (relation "measure (\<lambda>(stop, rest, lines, s). length rest)") (auto simp: buf_size_def)

definition count_lines :: "(nat \<Rightarrow> bool) \<Rightarrow> filesys \<Rightarrow> path \<Rightarrow> pstate \<Rightarrow> nat \<times> pstate" where
  "count_lines stop fs file_path s =
     (case fs file_path of
        None \<Rightarrow> (0, s)
      | Some content \<Rightarrow> count_loop stop content 0 s)"

subsection \<open>select\_best\_encoding\<close>

definition score_of :: "('f::linorder) env \<Rightarrow> ustr \<Rightarrow> 'f" where
  "score_of E decoded =
     (let printable_count = length (filter (\<lambda>c. isprintable E c \<or> c \<in> {13, 10, 9}) decoded);
          score = (if decoded \<noteq> [] then true_div E printable_count (length decoded)
                   else float_zero E);
          has_log_features = list_ex (\<lambda>pfx. py_in pfx decoded) self_prefixes
      in if has_log_features then add_bonus E score else score)"

fun select_loop ::
  "('f::linorder) env \<Rightarrow> (nat \<Rightarrow> bool) \<Rightarrow> bytes \<Rightarrow> string list \<Rightarrow> string \<Rightarrow> 'f \<Rightarrow> pstate
     \<Rightarrow> string \<times> pstate" where
  "select_loop E stop sample_data [] best_encoding best_score s = (best_encoding, s)"
| "select_loop E stop sample_data (encoding # rest) best_encoding best_score s =
     (if stop (polls s) then (best_encoding, tick s)
      else case decode E encoding Ignore sample_data of
             Inl e \<Rightarrow> select_loop E stop sample_data rest best_encoding best_score (tick s)
           | Inr decoded \<Rightarrow>
               if score_of E decoded > best_score
               then select_loop E stop sample_data rest encoding (score_of E decoded) (tick s)
               else select_loop E stop sample_data rest best_encoding best_score (tick s))"

definition select_best_encoding ::
  "('f::linorder) env \<Rightarrow> (nat \<Rightarrow> bool) \<Rightarrow> bytes \<Rightarrow> pstate \<Rightarrow> string \<times> pstate" where
  "select_best_encoding E stop sample_data s =
     select_loop E stop sample_data backup_encodings ''utf-8'' (float_zero E) s"

subsection \<open>detect\_encoding\<close>

definition bom_encodings :: "(bytes \<times> string) list" where
  "bom_encodings =
     [([CHR 0xEF, CHR 0xBB, CHR 0xBF], ''utf-8''),
      ([CHR 0xFF, CHR 0xFE], ''utf-16-le''),
      ([CHR 0xFE, CHR 0xFF], ''utf-16-be''),
      ([CHR 0xFF, CHR 0xFE, CHR 0x00, CHR 0x00], ''utf-32-le''),
      ([CHR 0x00, CHR 0x00, CHR 0xFE, CHR 0xFF], ''utf-32-be'')]"

text \<open>The loop over \<open>bom_encodings.items()\<close>, in the insertion order of the dict.\<close>

fun bom_lookup :: "(bytes \<times> string) list \<Rightarrow> bytes \<Rightarrow> string option" where
  "bom_lookup [] header = None"
| "bom_lookup ((bom, encoding) # rest) header =
     (if startswith header bom then Some encoding else bom_lookup rest header)"

definition detect_encoding ::
  "('f::linorder) env \<Rightarrow> (nat \<Rightarrow> bool) \<Rightarrow> filesys \<Rightarrow> path \<Rightarrow> pstate \<Rightarrow> string \<times> pstate" where
  "detect_encoding E stop fs file_path s =
     (case fs file_path of
        None \<Rightarrow> (''utf-8'', s)
      | Some content \<Rightarrow>
          (case bom_lookup bom_encodings (take 4 content) of
             Some encoding \<Rightarrow> (encoding, did_read (length (take 4 content)) s)
           | None \<Rightarrow>
               (let raw_data = take 50000 content;
                    s2 = did_read (length raw_data) (did_read (length (take 4 content)) s)
                in case chardet_detect E raw_data of
                     None \<Rightarrow> (''utf-8'', s2)
                   | Some (detected, confidence) \<Rightarrow>
                       (let encoding = (case detected of
                                          None \<Rightarrow> ''utf-8''
                                        | Some e \<Rightarrow> if e = [] then ''utf-8'' else e);
                            encoding = (if lower encoding = ''ascii'' then ''utf-8''
                                        else encoding)
                        in if confidence < min_confidence E
                           then select_best_encoding E stop raw_data s2
                           else (encoding, s2)))))"

subsection \<open>Reading the file as text\<close>

text \<open>
  \<open>open(file_path, 'r', encoding=encoding, errors='replace')\<close> followed by
  \<open>for line in file\<close>: the content is decoded with replacement of undecodable bytes,
  the line ends \<open>\r\n\<close> and \<open>\r\<close> are translated to \<open>\n\<close> (universal newlines) and
  the text is cut after every \<open>\n\<close>.
\<close>

fun translate_newlines :: "ustr \<Rightarrow> ustr" where
  "translate_newlines [] = []"
| "translate_newlines [c] = (if c = 13 then [10] else [c])"
| "translate_newlines (c # d # cs) =
     (if c = 13 \<and> d = 10 then 10 # translate_newlines cs
      else if c = 13 then 10 # translate_newlines (d # cs)
      else c # translate_newlines (d # cs))"

fun split_lines :: "ustr \<Rightarrow> ustr \<Rightarrow> ustr list" where
  "split_lines cur [] = (if cur = [] then [] else [cur])"
| "split_lines cur (c # cs) =
     (if c = 10 then (cur @ [c]) # split_lines [] cs else split_lines (cur @ [c]) cs)"

definition read_lines :: "'f env \<Rightarrow> filesys \<Rightarrow> path \<Rightarrow> string \<Rightarrow> exn + ustr list" where
  "read_lines E fs file_path encoding =
     (case fs file_path of
        None \<Rightarrow> Inl OSError
      | Some content \<Rightarrow>
          (case decode_stream E encoding content of
             Inl e \<Rightarrow> Inl e
           | Inr text \<Rightarrow> Inr (split_lines [] (translate_newlines text))))"

subsection \<open>The prefix test applied to one line\<close>

text \<open>
  \<^verbatim>\<open>
  for prefix in self.prefixes:
      if prefix in line:
          content = line.split(prefix, 1)[1].strip()
          if content.startswith("<") or content.startswith("["):
              chat_records.append(line.strip())
          break
  \<close>
  The index \<open>[1]\<close> raises \<open>IndexError\<close> when the split has one element.
\<close>

fun match_prefixes :: "ustr list \<Rightarrow> ustr \<Rightarrow> ustr list \<Rightarrow> exn + ustr list" where
  "match_prefixes [] line chat_records = Inr chat_records"
| "match_prefixes (pfx # rest) line chat_records =
     (if py_in pfx line
      then (case py_split1 pfx line of
              [before, after] \<Rightarrow>
                (let content = strip after
                 in if startswith content (ustr_of ''<'') \<or> startswith content (ustr_of ''['')
                    then Inr (chat_records @ [strip line])
                    else Inr chat_records)
            | _ \<Rightarrow> Inl IndexError)
      else match_prefixes rest line chat_records)"

subsection \<open>try\_backup\_encodings\<close>

datatype message =
    Stopped
  | DiskSpace nat
  | ProcessError exn
  | AllBackupFailed
  | ExtractError exn

text \<open>
  The messages are the strings that the source builds: the fixed text for a stopped
  run, the text for insufficient disk space with the free space it shows, the text for
  an exception while processing a file, the text listing all backup encodings as
  failed, and the text for a failed decompression.
\<close>

type_synonym outcome = "path \<times> ustr list \<times> message option"

text \<open>The inner loop over the lines of one candidate; \<open>Inr\<close> also after a \<open>break\<close>.\<close>

fun backup_lines ::
  "(nat \<Rightarrow> bool) \<Rightarrow> ustr list \<Rightarrow> ustr list \<Rightarrow> nat \<Rightarrow> pstate \<Rightarrow> (exn + ustr list) \<times> pstate" where
  "backup_lines stop [] chat_records line_errors s = (Inr chat_records, s)"
| "backup_lines stop (line # rest) chat_records line_errors s =
     (if stop (polls (next_line s)) then (Inr chat_records, tick (next_line s))
      else if replacement_char \<in> set line \<and> Suc line_errors > 50
      then (Inl UnicodeDecodeError, tick (next_line s))
      else (case match_prefixes self_prefixes line chat_records of
              Inl e \<Rightarrow> (Inl e, tick (next_line s))
            | Inr recs \<Rightarrow>
                backup_lines stop rest recs
                  (if replacement_char \<in> set line then Suc line_errors else line_errors)
                  (tick (next_line s))))"

text \<open>The outer loop over the candidates, with \<open>best_records\<close> and \<open>best_encoding\<close>.\<close>

fun backup_loop ::
  "'f env \<Rightarrow> (nat \<Rightarrow> bool) \<Rightarrow> filesys \<Rightarrow> path \<Rightarrow> string list \<Rightarrow> ustr list \<Rightarrow> string option
     \<Rightarrow> pstate \<Rightarrow> (ustr list \<times> string option) \<times> pstate" where
  "backup_loop E stop fs file_path [] best_records best_encoding s =
     ((best_records, best_encoding), s)"
| "backup_loop E stop fs file_path (encoding # rest) best_records best_encoding s =
     (if stop (polls s) then ((best_records, best_encoding), tick s)
      else (case read_lines E fs file_path encoding of
              Inl e \<Rightarrow> backup_loop E stop fs file_path rest best_records best_encoding (tick s)
            | Inr lines \<Rightarrow>
                (case backup_lines stop lines [] 0 (tick s) of
                   (Inl e, s') \<Rightarrow>
                     backup_loop E stop fs file_path rest best_records best_encoding s'
                 | (Inr chat_records, s') \<Rightarrow>
                     if length chat_records > length best_records
                     then backup_loop E stop fs file_path rest chat_records (Some encoding) s'
                     else backup_loop E stop fs file_path rest best_records best_encoding s')))"

definition try_backup_encodings ::
  "'f env \<Rightarrow> (nat \<Rightarrow> bool) \<Rightarrow> filesys \<Rightarrow> path \<Rightarrow> pstate \<Rightarrow> (exn + outcome) \<times> pstate" where
  "try_backup_encodings E stop fs file_path s =
     (if stop (polls s) then (Inr (file_path, [], Some Stopped), tick s)
      else (case fs file_path of
              None \<Rightarrow> (Inl OSError, tick s)
            | Some content \<Rightarrow>
                (case backup_loop E stop fs file_path backup_encodings [] None (tick s) of
                   ((best_records, best_encoding), s') \<Rightarrow>
                     if best_records \<noteq> [] then (Inr (file_path, best_records, None), s')
                     else (Inr (file_path, [], Some AllBackupFailed), s'))))"

subsection \<open>process\_log\<close>

datatype loop_result = Completed "ustr list" | Cancelled | TooManyErrors | Raised exn

fun process_lines ::
  "(nat \<Rightarrow> bool) \<Rightarrow> ustr list \<Rightarrow> ustr list \<Rightarrow> nat \<Rightarrow> pstate \<Rightarrow> loop_result \<times> pstate" where
  "process_lines stop [] chat_records line_errors s = (Completed chat_records, s)"
| "process_lines stop (line # rest) chat_records line_errors s =
     (if stop (polls (next_line s)) then (Cancelled, tick (next_line s))
      else (case match_prefixes self_prefixes line chat_records of
              Inl e \<Rightarrow> (Raised e, tick (next_line s))
            | Inr recs \<Rightarrow>
                if replacement_char \<in> set line \<and> Suc line_errors > 100
                then (TooManyErrors, tick (next_line s))
                else process_lines stop rest recs
                       (if replacement_char \<in> set line then Suc line_errors else line_errors)
                       (tick (next_line s))))"

text \<open>
  The two handlers of the \<open>try\<close> block: \<open>UnicodeDecodeError\<close> retries with the backup
  encodings, any other exception becomes the error text of the result.
\<close>

definition handle_exn ::
  "'f env \<Rightarrow> (nat \<Rightarrow> bool) \<Rightarrow> filesys \<Rightarrow> path \<Rightarrow> exn \<Rightarrow> pstate \<Rightarrow> (exn + outcome) \<times> pstate" where
  "handle_exn E stop fs file_path e s =
     (if e = UnicodeDecodeError then try_backup_encodings E stop fs file_path s
      else (Inr (file_path, [], Some (ProcessError e)), s))"

definition min_free :: nat where
  "min_free = 100 * 1024 * 1024"

definition process_log ::
  "('f::linorder) env \<Rightarrow> (nat \<Rightarrow> bool) \<Rightarrow> filesys \<Rightarrow> path \<Rightarrow> pstate \<Rightarrow> (exn + outcome) \<times> pstate" where
  "process_log E stop fs file_path s =
     (if stop (polls s) then (Inr (file_path, [], Some Stopped), tick s)
      else
        (case detect_encoding E stop fs file_path (tick s) of
           (encoding, s1) \<Rightarrow>
             (case fs file_path of
                None \<Rightarrow> (Inl OSError, s1)
              | Some content \<Rightarrow>
                  (case count_lines stop fs file_path s1 of
                     (line_count, s2) \<Rightarrow>
                       (case disk_free E (dirname file_path) of
                          None \<Rightarrow> (Inr (file_path, [], Some (ProcessError OSError)), s2)
                        | Some free \<Rightarrow>
                            if free < min_free
                            then (Inr (file_path, [], Some (DiskSpace free)), s2)
                            else
                              (case read_lines E fs file_path encoding of
                                 Inl e \<Rightarrow> handle_exn E stop fs file_path e s2
                               | Inr lines \<Rightarrow>
                                   (case process_lines stop lines [] 0 s2 of
                                      (Completed chat_records, s3) \<Rightarrow>
                                        (Inr (file_path, chat_records, None), s3)
                                    | (Cancelled, s3) \<Rightarrow>
                                        (Inr (file_path, [], Some Stopped), s3)
                                    | (TooManyErrors, s3) \<Rightarrow>
                                        (case try_backup_encodings E stop fs file_path s3 of
                                           (Inl e, s4) \<Rightarrow> handle_exn E stop fs file_path e s4
                                         | (Inr r, s4) \<Rightarrow> (Inr r, s4))
                                    | (Raised e, s3) \<Rightarrow>
                                        handle_exn E stop fs file_path e s3)))))))"

section \<open>ChatExtractorApp.deduplicate\_records: the per-result loop\<close>

text \<open>
  \<^verbatim>\<open>
  seen = set()
  deduplicated_records = []
  for record in records:
      if record not in seen:
          seen.add(record)
          deduplicated_records.append(record)
  \<close>
\<close>

fun dedup_loop :: "'a set \<Rightarrow> 'a list \<Rightarrow> 'a list \<Rightarrow> 'a list" where
  "dedup_loop seen out [] = out"
| "dedup_loop seen out (record # records) =
     (if record \<notin> seen then dedup_loop (insert record seen) (out @ [record]) records
      else dedup_loop seen out records)"

definition dedup :: "'a list \<Rightarrow> 'a list" where
  "dedup records = dedup_loop {} [] records"

section \<open>ChatExtractorApp: the worker\<close>

datatype task = Extract path | Process path "path option"

datatype status = Success | Failure

text \<open>
  \<open>Success\<close> and \<open>Failure\<close> are the two status strings that the worker writes.  The
  entry stored in \<open>self.results\<close> has the four keys of the source.
\<close>

record result_entry =
  records :: "ustr list"
  error :: "message option"
  status :: status
  source_archive :: "path option"

text \<open>
  The dictionaries keep their insertion order, so they are association lists, written
  with \<^const>\<open>AList.update\<close> and read with \<^const>\<open>map_of\<close>.  The tree view, the labels
  and the progress map of the user interface are not part of the model.
\<close>

record app =
  task_queue :: "task list"
  results :: "(path \<times> result_entry) list"
  all_results :: "(path \<times> ustr list) list"
  results_by_id :: "(path \<times> ustr list) list"
  filepath_to_treeid :: "(path \<times> path) list"
  temp_dir :: "path option"
  files :: filesys
  currently_processing :: nat
  processed_files :: nat

subsection \<open>extract\_gz\_file\<close>

definition extract_name :: "path \<Rightarrow> path" where
  "extract_name file_name =
     (if endswith file_name ''.log.gz'' then take (length file_name - 7) file_name @ ''.log''
      else if endswith file_name ''.gz'' then take (length file_name - 3) file_name
      else file_name)"

definition extract_path_of :: "path \<Rightarrow> path \<Rightarrow> path" where
  "extract_path_of tmp gz_path =
     path_join (path_join tmp (basename gz_path @ ''_extracted''))
       (extract_name (basename gz_path))"

text \<open>
  Every exception inside the function becomes its error text.  The archive is opened
  first; the output file is opened next, which raises when the member name is empty
  (an archive named \<open>.gz\<close>), since the target path is then the directory itself.
\<close>

definition extract_gz_file ::
  "'f env \<Rightarrow> path \<Rightarrow> app \<Rightarrow> (path option \<times> message option) \<times> app" where
  "extract_gz_file E gz_path a =
     (case disk_free E (dirname gz_path) of
        None \<Rightarrow> ((None, Some (ExtractError OSError)), a)
      | Some free \<Rightarrow>
          if free < min_free then ((None, Some (DiskSpace free)), a)
          else
            (let tmp = (case temp_dir a of None \<Rightarrow> mkdtemp E | Some d \<Rightarrow> d);
                 a1 = a\<lparr>temp_dir := Some tmp\<rparr>;
                 extract_path = extract_path_of tmp gz_path
             in case files a1 gz_path of
                  None \<Rightarrow> ((None, Some (ExtractError OSError)), a1)
                | Some gz \<Rightarrow>
                    if extract_name (basename gz_path) = []
                    then ((None, Some (ExtractError OSError)), a1)
                    else
                      (case gunzip E gz of
                         (data, None) \<Rightarrow>
                           ((Some extract_path, None),
                            a1\<lparr>files := (files a1)(extract_path \<mapsto> data)\<rparr>)
                       | (data, Some e) \<Rightarrow>
                           ((None, Some (ExtractError e)),
                            a1\<lparr>files := (files a1)(extract_path \<mapsto> data)\<rparr>))))"

subsection \<open>One iteration of the worker loop, for a task taken from the queue\<close>

definition tree_id_of :: "path \<Rightarrow> path option \<Rightarrow> path" where
  "tree_id_of file_path sa_opt =
     (case sa_opt of
        None \<Rightarrow> file_path
      | Some sa \<Rightarrow> if sa \<noteq> [] then sa else file_path)"

definition store_result :: "path \<Rightarrow> path option \<Rightarrow> ustr list \<Rightarrow> message option \<Rightarrow> app \<Rightarrow> app" where
  "store_result file_path sa recs err a =
     a\<lparr>results :=
         AList.update file_path
           \<lparr>records = recs, error = err,
            status = (if err = None then Success else Failure),
            source_archive = sa\<rparr> (results a),
       all_results := AList.update file_path recs (all_results a),
       results_by_id := AList.update (tree_id_of file_path sa) recs (results_by_id a),
       filepath_to_treeid :=
         AList.update file_path (tree_id_of file_path sa) (filepath_to_treeid a),
       processed_files := Suc (processed_files a)\<rparr>"

text \<open>
  An exception that leaves \<open>process_log\<close> is caught by the handler of the worker loop,
  which only logs it: nothing is stored for the file.
\<close>

definition worker_task ::
  "('f::linorder) env \<Rightarrow> (nat \<Rightarrow> bool) \<Rightarrow> task \<Rightarrow> app \<Rightarrow> pstate \<Rightarrow> app \<times> pstate" where
  "worker_task E stop t a s =
     (case t of
        Extract gz_path \<Rightarrow>
          (case extract_gz_file E gz_path a of
             ((Some extracted_path, err), a1) \<Rightarrow>
               if extracted_path \<noteq> []
               then (a1\<lparr>task_queue := task_queue a1 @ [Process extracted_path (Some gz_path)]\<rparr>, s)
               else (a1, s)
           | ((None, err), a1) \<Rightarrow> (a1, s))
      | Process file_path sa \<Rightarrow>
          (case process_log E stop (files a) file_path s of
             (Inl e, s') \<Rightarrow> (a\<lparr>currently_processing := Suc (currently_processing a)\<rparr>, s')
           | (Inr (p, recs, err), s') \<Rightarrow>
               (store_result file_path sa recs err
                  (a\<lparr>currently_processing := Suc (currently_processing a)\<rparr>), s')))"

section \<open>A concrete environment for the examples\<close>

text \<open>
  The examples evaluate the program on byte strings of ASCII text (bytes \<open>00..7F\<close>) and
  on the one-byte string \<open>FF\<close>.  On these, \<open>sample_decode\<close> returns what the Python
  codecs return: the bytes below \<open>80\<close> decode to themselves in every candidate that
  extends ASCII, and the byte \<open>FF\<close> is undecodable there, except in the Latin-1 family,
  where it is U+00FF, and in cp932, where it is U+F8F3; the UTF-16 candidates read two
  bytes per code unit, \<open>utf-16\<close> in little endian order when there is no byte order
  mark, and an odd last byte is undecodable.  Other byte strings are outside the
  examples: the tables of the multi-byte codecs and the surrogate pairs of UTF-16 are
  not reproduced.
\<close>

fun decode_ascii :: "errors_mode \<Rightarrow> bytes \<Rightarrow> ustr" where
  "decode_ascii m [] = []"
| "decode_ascii m (b # bs) =
     (if (of_char b :: nat) < 128 then of_char b # decode_ascii m bs
      else (case m of Ignore \<Rightarrow> decode_ascii m bs
                    | Replace \<Rightarrow> replacement_char # decode_ascii m bs))"

fun decode_cp932 :: "errors_mode \<Rightarrow> bytes \<Rightarrow> ustr" where
  "decode_cp932 m [] = []"
| "decode_cp932 m (b # bs) =
     (if (of_char b :: nat) < 128 then of_char b # decode_cp932 m bs
      else if (of_char b :: nat) = 255 then 63731 # decode_cp932 m bs
      else (case m of Ignore \<Rightarrow> decode_cp932 m bs
                    | Replace \<Rightarrow> replacement_char # decode_cp932 m bs))"

fun decode_utf16 :: "bool \<Rightarrow> errors_mode \<Rightarrow> bytes \<Rightarrow> ustr" where
  "decode_utf16 le m [] = []"
| "decode_utf16 le m [b] = (case m of Ignore \<Rightarrow> [] | Replace \<Rightarrow> [replacement_char])"
| "decode_utf16 le m (b # c # bs) =
     (if le then of_char b + 256 * of_char c else 256 * of_char b + of_char c)
       # decode_utf16 le m bs"

definition sample_decode :: "string \<Rightarrow> errors_mode \<Rightarrow> bytes \<Rightarrow> exn + ustr" where
  "sample_decode encoding m b =
     (if encoding \<in> set [''utf-8'', ''gbk'', ''gb2312'', ''gb18030'', ''big5'', ''euc-kr'',
                          ''shift_jis'', ''cp936'', ''cp949'', ''cp950'', ''ascii'']
      then Inr (decode_ascii m b)
      else if encoding \<in> set [''latin1'', ''cp1252'', ''iso-8859-1'', ''iso-8859-15'']
      then Inr (map of_char b)
      else if encoding = ''cp932'' then Inr (decode_cp932 m b)
      else if encoding = ''utf-16-le'' then Inr (decode_utf16 True m b)
      else if encoding = ''utf-16-be'' then Inr (decode_utf16 False m b)
      else if encoding = ''utf-16''
      then (if startswith b [CHR 0xFF, CHR 0xFE] then Inr (decode_utf16 True m (drop 2 b))
            else if startswith b [CHR 0xFE, CHR 0xFF] then Inr (decode_utf16 False m (drop 2 b))
            else Inr (decode_utf16 True m b))
      else Inl LookupError)"

text \<open>
  Reading a file as text decodes like \<open>bytes.decode\<close> with replacement, except under
  \<open>utf-16\<close>: a content of two or more bytes that does not start with a byte order mark
  raises \<open>UnicodeError\<close> at the first read.
\<close>

definition sample_decode_stream :: "string \<Rightarrow> bytes \<Rightarrow> exn + ustr" where
  "sample_decode_stream encoding b =
     (if encoding = ''utf-16'' \<and> 2 \<le> length b
         \<and> \<not> startswith b [CHR 0xFF, CHR 0xFE] \<and> \<not> startswith b [CHR 0xFE, CHR 0xFF]
      then Inl UnicodeError
      else sample_decode encoding Replace b)"

text \<open>
  \<open>str.isprintable\<close> below U+0100, at the replacement character U+FFFD (printable) and
  in the private use area (not printable); other code points are outside the examples.
\<close>

definition sample_isprintable :: "uchar \<Rightarrow> bool" where
  "sample_isprintable c \<longleftrightarrow>
     (32 \<le> c \<and> c < 127) \<or> (161 \<le> c \<and> c < 256 \<and> c \<noteq> 173) \<or> c = replacement_char"

text \<open>
  \<open>chardet.detect\<close> answers \<open>ascii\<close> with confidence 1.0 on a non-empty sample of
  bytes \<open>20..7E\<close> and line ends, and no encoding with confidence 0.0 on the empty
  sample; its statistical models are not reproduced, and every other sample is given
  the second answer here.
\<close>

definition sample_chardet :: "bytes \<Rightarrow> (string option \<times> rat) option" where
  "sample_chardet raw_data =
     (if raw_data \<noteq> [] \<and>
         list_all (\<lambda>b. (32 \<le> (of_char b :: nat) \<and> (of_char b :: nat) < 127)
                        \<or> (of_char b :: nat) = 10 \<or> (of_char b :: nat) = 13) raw_data
      then Some (Some ''ascii'', 1)
      else Some (None, 0))"

definition chat_log :: bytes where
  "chat_log =
     ''[12:00:00] [Server thread/INFO] [net.minecraft.server.MinecraftServer/]: <Alice> hello''
       @ [CHR 0x0A]"

text \<open>The gzip archive whose single member is \<^const>\<open>chat_log\<close>.\<close>

definition chat_log_gz :: bytes where
  "chat_log_gz =
     [CHR 0x1F, CHR 0x8B, CHR 0x08, CHR 0x00, CHR 0x00, CHR 0x00, CHR 0x00, CHR 0x00,
      CHR 0x02, CHR 0xFF, CHR 0x8B, CHR 0x36, CHR 0x34, CHR 0xB2, CHR 0x32, CHR 0x30,
      CHR 0x00, CHR 0xA2, CHR 0x58, CHR 0x85, CHR 0xE8, CHR 0xE0, CHR 0xD4, CHR 0xA2,
      CHR 0xB2, CHR 0xD4, CHR 0x22, CHR 0x85, CHR 0x92, CHR 0x8C, CHR 0xA2, CHR 0xD4,
      CHR 0xC4, CHR 0x14, CHR 0x7D, CHR 0x4F, CHR 0x3F, CHR 0x37, CHR 0x7F, CHR 0xA0,
      CHR 0x60, CHR 0x5E, CHR 0x6A, CHR 0x89, CHR 0x5E, CHR 0x6E, CHR 0x66, CHR 0x5E,
      CHR 0x6A, CHR 0x72, CHR 0x51, CHR 0x62, CHR 0x5A, CHR 0x89, CHR 0x5E, CHR 0x31,
      CHR 0x58, CHR 0x89, CHR 0x9E, CHR 0x2F, CHR 0x4C, CHR 0x00, CHR 0xA2, CHR 0x45,
      CHR 0x3F, CHR 0xD6, CHR 0x4A, CHR 0xC1, CHR 0xC6, CHR 0x31, CHR 0x27, CHR 0x33,
      CHR 0x39, CHR 0xD5, CHR 0x4E, CHR 0x21, CHR 0x23, CHR 0x35, CHR 0x27, CHR 0x27,
      CHR 0x9F, CHR 0x0B, CHR 0x00, CHR 0x73, CHR 0xA5, CHR 0x55, CHR 0x76, CHR 0x57,
      CHR 0x00, CHR 0x00, CHR 0x00]"

definition sample_gunzip :: "bytes \<Rightarrow> bytes \<times> exn option" where
  "sample_gunzip b = (if b = chat_log_gz then (chat_log, None) else ([], Some OSError))"

text \<open>
  Scores are rationals in the examples; the quotients that occur there (0 and 1) are
  exact as floats.  The volume has 200 MiB free.
\<close>

definition sample_env :: "rat env" where
  "sample_env =
     \<lparr>decode = sample_decode, decode_stream = sample_decode_stream,
      isprintable = sample_isprintable,
      chardet_detect = sample_chardet, float_zero = 0,
      true_div = (\<lambda>a b. of_nat a / of_nat b), add_bonus = (\<lambda>x. x + 3 / 10),
      min_confidence = 4 / 5, disk_free = (\<lambda>d. Some (200 * 1024 * 1024)),
      mkdtemp = ''/tmp/minecraft_logs_a1'', gunzip = sample_gunzip\<rparr>"

text \<open>A log file of two lines, for a cancellation after the first line.\<close>

definition two_fs :: filesys where
  "two_fs p = (if p = ''/logs/latest.log'' then Some (chat_log @ chat_log) else None)"

definition log_path :: path where
  "log_path = ''/logs/latest.log''"

definition sample_fs :: filesys where
  "sample_fs p = (if p = log_path then Some chat_log else None)"

text \<open>
  The archive scenario: the file system holds the archive \<open>chat.log.gz\<close>; the worker
  runs its \<open>Extract\<close> task and then the \<open>Process\<close> task that the extraction queued.
\<close>

definition gz_path :: path where
  "gz_path = ''/logs/chat.log.gz''"



text \<open>The same environment on a volume with 50 MiB free.\<close>

definition low_disk_env :: "rat env" where
  "low_disk_env = sample_env\<lparr>disk_free := (\<lambda>d. Some (50 * 1024 * 1024))\<rparr>"

text \<open>Two schedules of the stop flag: never set, and set from its \<open>n\<close>-th read on.\<close>

definition never :: "nat \<Rightarrow> bool" where
  "never k = False"

definition stop_from :: "nat \<Rightarrow> nat \<Rightarrow> bool" where
  "stop_from n k \<longleftrightarrow> n \<le> k"

definition init :: pstate where
  "init = \<lparr>polls = 0, nread = 0, lines_read = 0\<rparr>"

definition empty_app :: "filesys \<Rightarrow> app" where
  "empty_app fs =
     \<lparr>task_queue = [], results = [], all_results = [], results_by_id = [],
      filepath_to_treeid = [], temp_dir = None, files = fs,
      currently_processing = 0, processed_files = 0\<rparr>"



section \<open>Notions used in the statements\<close>

text \<open>
  \<open>leftmost_split line a p b\<close>: the text \<open>p\<close> occurs in \<open>line\<close> between \<open>a\<close> and \<open>b\<close>,
  and at no earlier position.
\<close>

definition leftmost_split :: "'a list \<Rightarrow> 'a list \<Rightarrow> 'a list \<Rightarrow> 'a list \<Rightarrow> bool" where
  "leftmost_split line a p b \<longleftrightarrow>
     line = a @ p @ b \<and> \<not> (\<exists>a' b'. line = a' @ p @ b' \<and> length a' < length a)"

text \<open>The first prefix of the list, in list order, that occurs somewhere in the line.\<close>

definition first_prefix :: "ustr \<Rightarrow> ustr option" where
  "first_prefix line = find (\<lambda>p. sublist p line) self_prefixes"

definition chat_line :: ustr where
  "chat_line = ustr_of chat_log"

text \<open>
  \<open>first_max scored dflt lo\<close>: among the scored items, the first one in list order
  that reaches the highest score, provided that score is above the bound \<open>lo\<close>, and
  \<open>dflt\<close> otherwise.
\<close>

definition first_max :: "('a \<times> 'b::linorder) list \<Rightarrow> 'a \<Rightarrow> 'b \<Rightarrow> 'a" where
  "first_max scored dflt lo =
     (let top = fold max (map snd scored) lo
      in if lo < top
         then (case find (\<lambda>c. snd c = top) scored of
                 Some c \<Rightarrow> fst c
               | None \<Rightarrow> dflt)
         else dflt)"

text \<open>
  The ranked choice among candidates, as the specification words it: every candidate
  whose decoding of the sample (under the given treatment of invalid bytes) succeeds is
  scored, and the first candidate with the highest score is taken.
\<close>

definition scored_candidates ::
  "('f::linorder) env \<Rightarrow> errors_mode \<Rightarrow> bytes \<Rightarrow> string list \<Rightarrow> (string \<times> 'f) list" where
  "scored_candidates E m sample encs =
     List.map_filter
       (\<lambda>enc. case decode E enc m sample of
                 Inl e \<Rightarrow> None
               | Inr decoded \<Rightarrow> Some (enc, score_of E decoded)) encs"

definition ranked_from ::
  "('f::linorder) env \<Rightarrow> errors_mode \<Rightarrow> bytes \<Rightarrow> string list \<Rightarrow> string \<Rightarrow> 'f \<Rightarrow> string" where
  "ranked_from E m sample encs dflt lo = first_max (scored_candidates E m sample encs) dflt lo"

definition ranked_choice ::
  "('f::linorder) env \<Rightarrow> errors_mode \<Rightarrow> string list \<Rightarrow> bytes \<Rightarrow> string" where
  "ranked_choice E m encs sample = ranked_from E m sample encs ''utf-8'' (float_zero E)"

text \<open>
  The number of candidates that a loop over \<open>n\<close> candidates, polling the flag once per
  candidate from the state \<open>s\<close> on, reaches before it sees the flag set.
\<close>

definition reached :: "(nat \<Rightarrow> bool) \<Rightarrow> pstate \<Rightarrow> nat \<Rightarrow> nat" where
  "reached stop s n = length (takeWhile (\<lambda>k. \<not> stop k) [polls s..<polls s + n])"

text \<open>
  What one candidate encoding yields when nothing interrupts it: the records of the
  lines that pass the prefix test, in line order, unless the file cannot be read under
  the encoding or more than 50 of its lines contain the replacement character.
\<close>

definition chat_of :: "ustr \<Rightarrow> ustr list" where
  "chat_of line = (case match_prefixes self_prefixes line [] of Inl e \<Rightarrow> [] | Inr recs \<Rightarrow> recs)"

definition chat_records_of :: "ustr list \<Rightarrow> ustr list" where
  "chat_records_of lines = concat (map chat_of lines)"

definition garbled :: "ustr list \<Rightarrow> nat" where
  "garbled lines = length (filter (\<lambda>line. replacement_char \<in> set line) lines)"

definition candidate_result :: "'f env \<Rightarrow> filesys \<Rightarrow> path \<Rightarrow> string \<Rightarrow> ustr list option" where
  "candidate_result E fs file_path encoding =
     (case read_lines E fs file_path encoding of
        Inl e \<Rightarrow> None
      | Inr lines \<Rightarrow> if garbled lines > 50 then None else Some (chat_records_of lines))"

text \<open>The successful candidates, each with its records and their number.\<close>

definition yielding ::
  "'f env \<Rightarrow> filesys \<Rightarrow> path \<Rightarrow> string list \<Rightarrow> ((ustr list \<times> string option) \<times> nat) list" where
  "yielding E fs file_path encs =
     List.map_filter
       (\<lambda>enc. case candidate_result E fs file_path enc of
                 None \<Rightarrow> None
               | Some recs \<Rightarrow> Some ((recs, Some enc), length recs)) encs"

section \<open>Properties of deduplication\<close>

lemma dedup_loop_out: "dedup_loop seen out rs = out @ dedup_loop seen [] rs"
proof (induction rs arbitrary: seen out)
  case Nil
  show ?case by simp
next
  case (Cons r rs)
  show ?case
  proof (cases "r \<in> seen")
    case True
    then show ?thesis using Cons.IH [of seen out] by simp
  next
    case False
    then show ?thesis
      using Cons.IH [of "insert r seen" "out @ [r]"] Cons.IH [of "insert r seen" "[r]"]
      by simp
  qed
qed

lemma set_dedup_loop: "set (dedup_loop seen out rs) = set out \<union> (set rs - seen)"
  by (induction rs arbitrary: seen out) auto

lemma distinct_dedup_loop:
  "distinct out \<Longrightarrow> set out \<subseteq> seen \<Longrightarrow> distinct (dedup_loop seen out rs)"
proof (induction rs arbitrary: seen out)
  case Nil
  then show ?case by simp
next
  case (Cons r rs)
  show ?case
  proof (cases "r \<in> seen")
    case True
    then show ?thesis using Cons.IH [of out seen] Cons.prems by simp
  next
    case False
    have "distinct (out @ [r])" using False Cons.prems by auto
    moreover have "set (out @ [r]) \<subseteq> insert r seen" using Cons.prems by auto
    ultimately have "distinct (dedup_loop (insert r seen) (out @ [r]) rs)"
      by (rule Cons.IH)
    then show ?thesis using False by simp
  qed
qed

lemma subseq_dedup_loop: "subseq (dedup_loop seen [] rs) rs"
proof (induction rs arbitrary: seen)
  case Nil
  show ?case by simp
next
  case (Cons r rs)
  show ?case
  proof (cases "r \<in> seen")
    case True
    then show ?thesis using Cons.IH [of seen] by (simp add: list_emb_Cons)
  next
    case False
    then show ?thesis
      using Cons.IH [of "insert r seen"] dedup_loop_out [of "insert r seen" "[r]" rs] by simp
  qed
qed

lemma dedup_loop_distinct_id:
  "distinct rs \<Longrightarrow> set rs \<inter> seen = {} \<Longrightarrow> dedup_loop seen out rs = out @ rs"
  by (induction rs arbitrary: seen out) auto

lemma dedup_loop_snoc:
  "dedup_loop seen out (rs @ [r]) =
     (if r \<in> seen \<union> set rs then dedup_loop seen out rs else dedup_loop seen out rs @ [r])"
  by (induction rs arbitrary: seen out) auto

lemma dedup_snoc: "dedup (rs @ [r]) = (if r \<in> set rs then dedup rs else dedup rs @ [r])"
  by (simp add: dedup_def dedup_loop_snoc)

lemma first_occ_snoc:
  "map (\<lambda>i. (rs @ [r]) ! i)
     (filter (\<lambda>i. (rs @ [r]) ! i \<notin> set (take i (rs @ [r]))) [0..<length (rs @ [r])])
   = map (\<lambda>i. rs ! i) (filter (\<lambda>i. rs ! i \<notin> set (take i rs)) [0..<length rs])
     @ (if r \<in> set rs then [] else [r])"
proof -
  have f: "filter (\<lambda>i. (rs @ [r]) ! i \<notin> set (take i (rs @ [r]))) [0..<length rs]
         = filter (\<lambda>i. rs ! i \<notin> set (take i rs)) [0..<length rs]"
    by (rule filter_cong) (auto simp: nth_append)
  have m: "map (\<lambda>i. (rs @ [r]) ! i) (filter (\<lambda>i. rs ! i \<notin> set (take i rs)) [0..<length rs])
         = map (\<lambda>i. rs ! i) (filter (\<lambda>i. rs ! i \<notin> set (take i rs)) [0..<length rs])"
    by (rule map_cong) (auto simp: nth_append)
  show ?thesis using f m by simp
qed

lemma dedup_first_occ:
  "dedup rs = map (\<lambda>i. rs ! i) (filter (\<lambda>i. rs ! i \<notin> set (take i rs)) [0..<length rs])"
proof (induction rs rule: rev_induct)
  case Nil
  show ?case by (simp add: dedup_def)
next
  case (snoc r rs)
  show ?case using snoc.IH first_occ_snoc [of rs r] dedup_snoc [of rs r] by simp
qed

lemma distinct_dedup: "distinct (dedup rs)"
  unfolding dedup_def by (rule distinct_dedup_loop) simp_all

text \<open>
  Claim C7.  Deduplication is idempotent: for every record sequence, running the
  deduplication loop on its own output returns that output unchanged.
\<close>

theorem dedup_idempotent: "dedup (dedup rs) = dedup rs"
proof -
  have "dedup_loop {} [] (dedup rs) = [] @ dedup rs"
    using distinct_dedup [of rs] by (intro dedup_loop_distinct_id) simp_all
  then show ?thesis by (simp add: dedup_def)
qed

text \<open>
  Claim C8.  For every record sequence the deduplicated output is a subsequence of the
  input without repetitions and with the same records, and it consists exactly of the
  records at the positions \<open>i\<close> where the record does not occur before \<open>i\<close>, in
  increasing order of \<open>i\<close>: the first occurrence of each distinct record, in the order
  of the first occurrences.
\<close>

theorem dedup_keeps_first_occurrences:
  "subseq (dedup rs) rs \<and> distinct (dedup rs) \<and> set (dedup rs) = set rs \<and>
   dedup rs = map (\<lambda>i. rs ! i) (filter (\<lambda>i. rs ! i \<notin> set (take i rs)) [0..<length rs])"
proof -
  have "subseq (dedup rs) rs" unfolding dedup_def by (rule subseq_dedup_loop)
  moreover have "set (dedup rs) = set rs" by (simp add: dedup_def set_dedup_loop)
  ultimately show ?thesis using dedup_first_occ [of rs] distinct_dedup [of rs] by blast
qed

section \<open>The prefix test\<close>

lemma py_find_Some:
  "py_find sub s = Some i \<Longrightarrow> s = take i s @ sub @ drop (i + length sub) s \<and> i \<le> length s"
proof (induction s arbitrary: i)
  case Nil
  then show ?case by (simp split: if_splits)
next
  case (Cons c cs)
  show ?case
  proof (cases "prefix sub (c # cs)")
    case True
    then obtain t where "c # cs = sub @ t" by (auto simp: prefix_def)
    moreover have "i = 0" using True Cons.prems by simp
    ultimately show ?thesis by simp
  next
    case False
    then obtain j where j: "py_find sub cs = Some j" "i = Suc j"
      using Cons.prems by auto
    then show ?thesis using Cons.IH [of j] by simp
  qed
qed

lemma py_find_leftmost:
  "s = a @ sub @ b \<Longrightarrow> \<exists>i. py_find sub s = Some i \<and> i \<le> length a"
proof (induction a arbitrary: s)
  case Nil
  show ?case
  proof (cases s)
    case Nil
    then show ?thesis using Nil.prems by simp
  next
    case (Cons c cs)
    have "prefix sub (c # cs)" using Nil.prems Cons by (metis append_Nil prefixI)
    then show ?thesis using Cons by simp
  qed
next
  case (Cons x a)
  then obtain i where i: "py_find sub (a @ sub @ b) = Some i" "i \<le> length a"
    by blast
  show ?case using Cons.prems i by auto
qed

lemma py_in_iff_sublist: "py_in sub s \<longleftrightarrow> sublist sub s"
proof
  assume "py_in sub s"
  then obtain i where "py_find sub s = Some i" by (auto simp: py_in_def)
  then have "s = take i s @ sub @ drop (i + length sub) s" using py_find_Some by blast
  then show "sublist sub s" unfolding sublist_def by blast
next
  assume "sublist sub s"
  then obtain a b where "s = a @ sub @ b" unfolding sublist_def by blast
  then show "py_in sub s" using py_find_leftmost [of s a sub b] by (auto simp: py_in_def)
qed

lemma py_find_leftmost_split:
  assumes "leftmost_split s a sub b"
  shows "py_find sub s = Some (length a)"
proof -
  have s: "s = a @ sub @ b" using assms by (simp add: leftmost_split_def)
  obtain i where i: "py_find sub s = Some i" "i \<le> length a"
    using py_find_leftmost [OF s] by blast
  have "s = take i s @ sub @ drop (i + length sub) s" "i \<le> length s"
    using py_find_Some [OF i(1)] by simp_all
  then have "\<not> length (take i s) < length a"
    using assms unfolding leftmost_split_def by blast
  then have "i = length a" using i(2) \<open>i \<le> length s\<close> by simp
  then show ?thesis using i(1) by simp
qed

lemma leftmost_split_py_find:
  assumes "py_find sub s = Some i"
  shows "leftmost_split s (take i s) sub (drop (i + length sub) s)"
proof -
  have s: "s = take i s @ sub @ drop (i + length sub) s" and le: "i \<le> length s"
    using py_find_Some [OF assms] by simp_all
  have "\<not> (\<exists>a' b'. s = a' @ sub @ b' \<and> length a' < length (take i s))"
  proof
    assume "\<exists>a' b'. s = a' @ sub @ b' \<and> length a' < length (take i s)"
    then obtain a' b' where ab: "s = a' @ sub @ b'" "length a' < length (take i s)" by blast
    obtain j where "py_find sub s = Some j" "j \<le> length a'"
      using py_find_leftmost [OF ab(1)] by blast
    then show False using assms ab(2) le by simp
  qed
  then show ?thesis using s unfolding leftmost_split_def by blast
qed

lemma py_split1_leftmost:
  assumes "leftmost_split s a sub b"
  shows "py_split1 sub s = [a, b]"
proof -
  have "s = a @ sub @ b" using assms by (simp add: leftmost_split_def)
  then show ?thesis using py_find_leftmost_split [OF assms] by (simp add: py_split1_def)
qed

lemma py_split1_in:
  "py_in sub s \<Longrightarrow> \<exists>a b. py_split1 sub s = [a, b] \<and> s = a @ sub @ b"
  using py_find_Some [of sub s] by (auto simp: py_in_def py_split1_def)

lemma match_prefixes_total: "\<exists>r. match_prefixes ps line recs = Inr r"
proof (induction ps)
  case Nil
  show ?case by simp
next
  case (Cons p ps)
  show ?case
  proof (cases "py_in p line")
    case True
    then obtain a b where "py_split1 p line = [a, b]" using py_split1_in by blast
    then show ?thesis using True by (simp add: Let_def)
  next
    case False
    then show ?thesis using Cons.IH by simp
  qed
qed

lemma match_prefixes_none:
  "find (\<lambda>p. sublist p line) ps = None \<Longrightarrow> match_prefixes ps line recs = Inr recs"
  by (induction ps) (auto simp: py_in_iff_sublist split: if_splits)

lemma match_prefixes_first:
  assumes "find (\<lambda>p. sublist p line) ps = Some p" and "leftmost_split line a p b"
  shows "match_prefixes ps line recs =
           Inr (if startswith (strip b) (ustr_of ''<'') \<or> startswith (strip b) (ustr_of ''['')
                then recs @ [strip line] else recs)"
  using assms(1)
proof (induction ps)
  case Nil
  then show ?case by simp
next
  case (Cons q ps)
  show ?case
  proof (cases "sublist q line")
    case True
    then have "q = p" using Cons.prems by simp
    then show ?thesis
      using True py_split1_leftmost [OF assms(2)]
      by (simp add: py_in_iff_sublist Let_def)
  next
    case False
    then show ?thesis using Cons by (simp add: py_in_iff_sublist)
  qed
qed

lemma startswith_char: "startswith s (ustr_of [c]) \<longleftrightarrow> (\<exists>t. s = of_char c # t)"
  by (cases s) (auto simp: startswith_def ustr_of_def)

text \<open>
  Claim C3.  For every line and every list of records collected so far:
  \<^item> if \<open>p\<close> is the first prefix of the list that occurs in the line, and the text after
    its leftmost occurrence, trimmed, starts with \<open><\<close> or \<open>[\<close>, the trimmed line is
    appended once;
  \<^item> if \<open>p\<close> is the first prefix that occurs in the line and that text, trimmed, starts
    with neither character, the records are unchanged;
  \<^item> if no prefix occurs in the line, the records are unchanged.

  In no case does the test raise.
\<close>

theorem match_prefixes_extracts:
  "(first_prefix line = Some p \<and> leftmost_split line a p b \<and>
      (\<exists>t. strip b = of_char CHR ''<'' # t \<or> strip b = of_char CHR ''['' # t)
    \<longrightarrow> match_prefixes self_prefixes line recs = Inr (recs @ [strip line])) \<and>
   (first_prefix line = Some p \<and> leftmost_split line a p b \<and>
      \<not> (\<exists>t. strip b = of_char CHR ''<'' # t \<or> strip b = of_char CHR ''['' # t)
    \<longrightarrow> match_prefixes self_prefixes line recs = Inr recs) \<and>
   (first_prefix line = None \<longrightarrow> match_prefixes self_prefixes line recs = Inr recs)"
proof (intro conjI impI)
  assume h: "first_prefix line = Some p \<and> leftmost_split line a p b \<and>
      (\<exists>t. strip b = of_char CHR ''<'' # t \<or> strip b = of_char CHR ''['' # t)"
  then have "startswith (strip b) (ustr_of ''<'') \<or> startswith (strip b) (ustr_of ''['')"
    unfolding startswith_char by blast
  then show "match_prefixes self_prefixes line recs = Inr (recs @ [strip line])"
    using h match_prefixes_first [of line self_prefixes p a b recs]
    by (simp add: first_prefix_def)
next
  assume h: "first_prefix line = Some p \<and> leftmost_split line a p b \<and>
      \<not> (\<exists>t. strip b = of_char CHR ''<'' # t \<or> strip b = of_char CHR ''['' # t)"
  then have "\<not> (startswith (strip b) (ustr_of ''<'') \<or> startswith (strip b) (ustr_of ''[''))"
    unfolding startswith_char by blast
  then show "match_prefixes self_prefixes line recs = Inr recs"
    using h match_prefixes_first [of line self_prefixes p a b recs]
    by (simp add: first_prefix_def)
next
  assume "first_prefix line = None"
  then show "match_prefixes self_prefixes line recs = Inr recs"
    by (simp add: first_prefix_def match_prefixes_none)
qed

lemma chat_line_find: "py_find (self_prefixes ! 0) chat_line = Some 11"
  by (simp add: chat_line_def chat_log_def self_prefixes_def ustr_of_def)

lemma chat_line_strip:
  "strip chat_line =
     ustr_of ''[12:00:00] [Server thread/INFO] [net.minecraft.server.MinecraftServer/]: <Alice> hello''"
  by (simp add: chat_line_def chat_log_def strip_def is_space_def ustr_of_def)

lemma chat_line_split:
  "leftmost_split chat_line (ustr_of ''[12:00:00] '') (self_prefixes ! 0)
     (ustr_of ('' <Alice> hello'' @ [CHR 0x0A]))"
proof -
  have "take 11 chat_line = ustr_of ''[12:00:00] ''"
    by (simp add: chat_line_def chat_log_def ustr_of_def)
  moreover have "drop (11 + length (self_prefixes ! 0)) chat_line
      = ustr_of ('' <Alice> hello'' @ [CHR 0x0A])"
    by (simp add: chat_line_def chat_log_def ustr_of_def self_prefixes_def)
  ultimately show ?thesis using leftmost_split_py_find [OF chat_line_find] by simp
qed

lemma chat_line_first: "first_prefix chat_line = Some (self_prefixes ! 0)"
proof -
  have "py_in (self_prefixes ! 0) chat_line" using chat_line_find by (simp add: py_in_def)
  then have "sublist (self_prefixes ! 0) chat_line" by (simp add: py_in_iff_sublist)
  then show ?thesis by (simp add: first_prefix_def self_prefixes_def)
qed

theorem match_prefixes_extracts_witness:
  "first_prefix chat_line = Some (self_prefixes ! 0) \<and>
   leftmost_split chat_line (ustr_of ''[12:00:00] '') (self_prefixes ! 0)
     (ustr_of ('' <Alice> hello'' @ [CHR 0x0A])) \<and>
   strip (ustr_of ('' <Alice> hello'' @ [CHR 0x0A])) = of_char CHR ''<'' # ustr_of ''Alice> hello'' \<and>
   match_prefixes self_prefixes chat_line [] =
     Inr [ustr_of ''[12:00:00] [Server thread/INFO] [net.minecraft.server.MinecraftServer/]: <Alice> hello'']"
proof -
  have s: "strip (ustr_of ('' <Alice> hello'' @ [CHR 0x0A])) = of_char CHR ''<'' # ustr_of ''Alice> hello''"
    by (simp add: strip_def is_space_def ustr_of_def)
  have "match_prefixes self_prefixes chat_line [] = Inr ([] @ [strip chat_line])"
    using match_prefixes_extracts [of chat_line "self_prefixes ! 0" "ustr_of ''[12:00:00] ''"
        "ustr_of ('' <Alice> hello'' @ [CHR 0x0A])" "[]"]
      chat_line_first chat_line_split s by blast
  then show ?thesis using chat_line_first chat_line_split s chat_line_strip by simp
qed

section \<open>Detection by byte order mark\<close>

lemma bom_not_utf32le: "bom_lookup bom_encodings header \<noteq> Some ''utf-32-le''"
proof -
  have "startswith header [CHR 0xFF, CHR 0xFE, CHR 0x00, CHR 0x00]
        \<Longrightarrow> startswith header [CHR 0xFF, CHR 0xFE]"
    by (auto simp: startswith_def prefix_def)
  then show ?thesis by (auto simp: bom_encodings_def)
qed

lemma detect_encoding_boms:
  "fst (detect_encoding E stop (\<lambda>p. Some ([CHR 0xEF, CHR 0xBB, CHR 0xBF] @ rest)) file_path s)
     = ''utf-8''"
  "fst (detect_encoding E stop (\<lambda>p. Some ([CHR 0xFF, CHR 0xFE] @ rest)) file_path s)
     = ''utf-16-le''"
  "fst (detect_encoding E stop (\<lambda>p. Some ([CHR 0xFE, CHR 0xFF] @ rest)) file_path s)
     = ''utf-16-be''"
  "fst (detect_encoding E stop (\<lambda>p. Some ([CHR 0x00, CHR 0x00, CHR 0xFE, CHR 0xFF] @ rest)) file_path s)
     = ''utf-32-be''"
  by (simp_all add: detect_encoding_def bom_encodings_def startswith_def)

text \<open>
  Claim C4, at the input the claim names.  A file that begins with the UTF-32-LE byte
  order mark \<open>FF FE 00 00\<close> also begins with the UTF-16-LE mark \<open>FF FE\<close>, which stands
  earlier in the table: \<open>detect_encoding\<close> returns \<open>utf-16-le\<close> for it, and the table
  lookup returns \<open>utf-32-le\<close> for no header at all.
\<close>

theorem detect_encoding_utf32le_bom:
  "fst (detect_encoding E stop (\<lambda>p. Some ([CHR 0xFF, CHR 0xFE, CHR 0x00, CHR 0x00] @ rest))
          file_path s) = ''utf-16-le'' \<and>
   bom_lookup bom_encodings header \<noteq> Some ''utf-32-le''"
proof
  show "fst (detect_encoding E stop (\<lambda>p. Some ([CHR 0xFF, CHR 0xFE, CHR 0x00, CHR 0x00] @ rest))
          file_path s) = ''utf-16-le''"
    by (simp add: detect_encoding_def bom_encodings_def startswith_def)
  show "bom_lookup bom_encodings header \<noteq> Some ''utf-32-le''"
    by (rule bom_not_utf32le)
qed

section \<open>The ranked fallback\<close>

lemma fold_max_ge: "(a::'a::linorder) \<le> fold max xs a"
proof (induction xs arbitrary: a)
  case Nil
  show ?case by simp
next
  case (Cons x xs)
  have "a \<le> max x a" by simp
  also have "\<dots> \<le> fold max xs (max x a)" by (rule Cons.IH)
  finally show ?case by simp
qed

lemma fold_max_mono: "(a::'a::linorder) \<le> b \<Longrightarrow> fold max xs a \<le> fold max xs b"
proof (induction xs arbitrary: a b)
  case Nil
  then show ?case by simp
next
  case (Cons x xs)
  have "max x a \<le> max x b" using Cons.prems by (simp add: max.coboundedI2)
  then show ?case using Cons.IH by simp
qed

lemma fold_max_upper: "x \<in> set xs \<Longrightarrow> (x::'a::linorder) \<le> fold max xs a"
proof (induction xs arbitrary: a)
  case Nil
  then show ?case by simp
next
  case (Cons y ys)
  show ?case
  proof (cases "x = y")
    case True
    have "x \<le> max y a" using True by simp
    also have "\<dots> \<le> fold max ys (max y a)" by (rule fold_max_ge)
    finally show ?thesis by simp
  next
    case False
    then have "x \<in> set ys" using Cons.prems by simp
    then show ?thesis using Cons.IH by simp
  qed
qed

lemma fold_max_in: "fold max xs a = a \<or> fold max xs (a::'a::linorder) \<in> set xs"
proof (induction xs arbitrary: a)
  case Nil
  show ?case by simp
next
  case (Cons x xs)
  show ?case using Cons.IH [of "max x a"] by (auto simp: max_def split: if_splits)
qed

lemma find_top_Some:
  assumes "lo < fold max (map snd scored) (lo::'a::linorder)"
  shows "\<exists>c. find (\<lambda>c. snd c = fold max (map snd scored) lo) scored = Some c"
proof -
  have "fold max (map snd scored) lo \<in> set (map snd scored)"
    using fold_max_in [of "map snd scored" lo] assms by auto
  then obtain c where c: "c \<in> set scored" "snd c = fold max (map snd scored) lo" by auto
  have "find (\<lambda>c. snd c = fold max (map snd scored) lo) scored \<noteq> None"
    unfolding find_None_iff using c by blast
  then show ?thesis by blast
qed

lemma first_max_Nil: "first_max [] dflt lo = dflt"
  by (simp add: first_max_def)

lemma first_max_gt:
  assumes "lo < sc"
  shows "first_max ((x, sc) # rest) dflt lo = first_max rest x sc"
proof -
  let ?top = "fold max (map snd rest) sc"
  have m: "max sc lo = sc" using assms by (simp add: max_absorb1)
  have ge: "sc \<le> ?top" by (rule fold_max_ge)
  have lt: "lo < ?top" using assms ge by simp
  show ?thesis
  proof (cases "sc < ?top")
    case True
    then obtain c where "find (\<lambda>c. snd c = ?top) rest = Some c"
      using find_top_Some [of sc rest] by blast
    moreover have "sc \<noteq> ?top" using True by simp
    ultimately show ?thesis using True m lt by (simp add: first_max_def Let_def)
  next
    case False
    then have "sc = ?top" using ge by simp
    then show ?thesis using m lt by (simp add: first_max_def Let_def)
  qed
qed

lemma first_max_le:
  assumes "\<not> lo < sc"
  shows "first_max ((x, sc) # rest) dflt lo = first_max rest dflt lo"
proof -
  let ?top = "fold max (map snd rest) lo"
  have m: "max sc lo = lo" using assms by (simp add: max_absorb2)
  show ?thesis
  proof (cases "lo < ?top")
    case True
    then have "sc \<noteq> ?top" using assms by auto
    then show ?thesis using m True by (simp add: first_max_def Let_def)
  next
    case False
    then show ?thesis using m by (simp add: first_max_def Let_def)
  qed
qed

lemma scored_Nil: "scored_candidates E m sample [] = []"
  by (simp add: scored_candidates_def)

lemma scored_Cons:
  "scored_candidates E m sample (enc # encs) =
     (case decode E enc m sample of
        Inl e \<Rightarrow> scored_candidates E m sample encs
      | Inr d \<Rightarrow> (enc, score_of E d) # scored_candidates E m sample encs)"
  by (simp add: scored_candidates_def split: sum.splits)

lemma ranked_from_Nil: "ranked_from E m sample [] dflt lo = dflt"
  by (simp add: ranked_from_def scored_Nil first_max_Nil)

lemma ranked_from_Inl:
  "decode E enc m sample = Inl e \<Longrightarrow>
   ranked_from E m sample (enc # encs) dflt lo = ranked_from E m sample encs dflt lo"
  by (simp add: ranked_from_def scored_Cons)

lemma ranked_from_gt:
  "decode E enc m sample = Inr d \<Longrightarrow> lo < score_of E d \<Longrightarrow>
   ranked_from E m sample (enc # encs) dflt lo = ranked_from E m sample encs enc (score_of E d)"
  by (simp add: ranked_from_def scored_Cons first_max_gt)

lemma ranked_from_le:
  "decode E enc m sample = Inr d \<Longrightarrow> \<not> lo < score_of E d \<Longrightarrow>
   ranked_from E m sample (enc # encs) dflt lo = ranked_from E m sample encs dflt lo"
  by (simp add: ranked_from_def scored_Cons first_max_le)

lemma reached_0: "reached stop s 0 = 0"
  by (simp add: reached_def)

lemma reached_stop: "stop (polls s) \<Longrightarrow> reached stop s (Suc n) = 0"
  by (simp add: reached_def upt_rec)

lemma reached_go: "\<not> stop (polls s) \<Longrightarrow> reached stop s (Suc n) = Suc (reached stop (tick s) n)"
proof -
  assume a: "\<not> stop (polls s)"
  have "[polls s..<polls s + Suc n] = polls s # [Suc (polls s)..<Suc (polls s) + n]"
    by (simp add: upt_rec)
  then show ?thesis using a by (simp add: reached_def tick_def)
qed

lemma select_loop_ranked:
  "fst (select_loop E stop sample encs be bs s)
     = ranked_from E Ignore sample (take (reached stop s (length encs)) encs) be bs"
proof (induction encs arbitrary: be bs s)
  case Nil
  show ?case by (simp add: ranked_from_Nil)
next
  case (Cons enc encs)
  show ?case
  proof (cases "stop (polls s)")
    case True
    then show ?thesis by (simp add: reached_stop ranked_from_Nil)
  next
    case False
    have go: "reached stop s (Suc (length encs)) = Suc (reached stop (tick s) (length encs))"
      using False by (rule reached_go)
    show ?thesis
    proof (cases "decode E enc Ignore sample")
      case (Inl e)
      then show ?thesis using False go Cons.IH [of be bs "tick s"]
        by (simp add: ranked_from_Inl)
    next
      case (Inr d)
      show ?thesis
      proof (cases "bs < score_of E d")
        case True
        then show ?thesis using False go Inr Cons.IH [of enc "score_of E d" "tick s"]
          by (simp add: ranked_from_gt)
      next
        case False
        then show ?thesis using \<open>\<not> stop (polls s)\<close> go Inr Cons.IH [of be bs "tick s"]
          by (simp add: ranked_from_le)
      qed
    qed
  qed
qed

lemma reached_never: "reached never s n = n"
proof -
  have eq: "takeWhile (\<lambda>k. \<not> never k) [polls s..<polls s + n] = [polls s..<polls s + n]"
    by (simp add: never_def)
  show ?thesis unfolding reached_def eq by simp
qed

text \<open>
  Claim C5, as the code has it.  \<open>select_best_encoding\<close> decodes the sample under each
  candidate with invalid bytes dropped (\<open>errors='ignore'\<close>), skips a candidate whose
  decoding raises, scores the others, and returns the first candidate in list order
  that reaches the highest score when that score is above 0, and \<open>utf-8\<close> otherwise.
  The candidates considered are those before the first one at which the stop flag is
  seen set; they are all of them when the flag is never set.  The score of a decoded
  text is the number of its characters that are printable or one of \<open>\r\<close>, \<open>\n\<close>,
  \<open>\t\<close>, divided by its length (0 for the empty text), plus 0.3 when a log prefix
  occurs in it.
\<close>

theorem select_best_encoding_ranked:
  "fst (select_best_encoding E stop sample s)
     = ranked_choice E Ignore
         (take (reached stop s (length backup_encodings)) backup_encodings) sample \<and>
   fst (select_best_encoding E never sample s) = ranked_choice E Ignore backup_encodings sample \<and>
   score_of E decoded =
     (let ratio = (if decoded = [] then float_zero E
                   else true_div E
                          (length (filter (\<lambda>c. isprintable E c \<or> c = 13 \<or> c = 10 \<or> c = 9) decoded))
                          (length decoded))
      in if \<exists>p \<in> set self_prefixes. sublist p decoded then add_bonus E ratio else ratio)"
  by (simp add: select_best_encoding_def ranked_choice_def select_loop_ranked reached_never
      score_of_def list_ex_iff py_in_iff_sublist)

text \<open>
  Claim C5 as stated, with invalid bytes replaced, fails on the one-byte sample \<open>FF\<close>.
  With replacement, \<open>utf-8\<close> decodes it to U+FFFD, which is printable, and is the first
  candidate with score 1.  The code drops the byte: \<open>utf-8\<close> and the four candidates
  after it decode the sample to the empty text, with score 0, and \<open>latin1\<close> is the
  first candidate with score 1.
\<close>

theorem select_best_encoding_replace_counterexample:
  "fst (select_best_encoding sample_env never [CHR 0xFF] init) = ''latin1'' \<and>
   ranked_choice sample_env Replace backup_encodings [CHR 0xFF] = ''utf-8'' \<and>
   fst (select_best_encoding sample_env never [CHR 0xFF] init)
     \<noteq> ranked_choice sample_env Replace backup_encodings [CHR 0xFF]"
proof -
  have a: "fst (select_best_encoding sample_env never [CHR 0xFF] init) = ''latin1''"
    by (simp add: select_best_encoding_def backup_encodings_def sample_env_def never_def
        init_def sample_decode_def score_of_def sample_isprintable_def replacement_char_def
        tick_def self_prefixes_def py_in_def ustr_of_def)
  have b: "ranked_choice sample_env Replace backup_encodings [CHR 0xFF] = ''utf-8''"
    by (simp add: ranked_choice_def ranked_from_def first_max_def scored_candidates_def
        backup_encodings_def sample_env_def sample_decode_def score_of_def
        sample_isprintable_def replacement_char_def self_prefixes_def py_in_def ustr_of_def)
  show ?thesis using a b by simp
qed

section \<open>The fallback over the backup encodings\<close>

lemma match_prefixes_acc:
  "match_prefixes ps line recs =
     (case match_prefixes ps line [] of Inl e \<Rightarrow> Inl e | Inr r \<Rightarrow> Inr (recs @ r))"
proof (induction ps)
  case Nil
  show ?case by simp
next
  case (Cons p ps)
  show ?case
  proof (cases "py_in p line")
    case True
    then obtain a b where "py_split1 p line = [a, b]" using py_split1_in by blast
    then show ?thesis using True by (simp add: Let_def)
  next
    case False
    then show ?thesis using Cons.IH by simp
  qed
qed

lemma match_prefixes_chat_of:
  "match_prefixes self_prefixes line recs = Inr (recs @ chat_of line)"
proof -
  obtain r where r: "match_prefixes self_prefixes line [] = Inr r"
    using match_prefixes_total by blast
  show ?thesis using match_prefixes_acc [of self_prefixes line recs] r
    by (simp add: chat_of_def)
qed

lemma garbled_Cons:
  "garbled (line # rest) = (if replacement_char \<in> set line then Suc (garbled rest) else garbled rest)"
  by (simp add: garbled_def)

lemma chat_records_of_Cons: "chat_records_of (line # rest) = chat_of line @ chat_records_of rest"
  by (simp add: chat_records_of_def)

lemma backup_lines_never:
  assumes "\<forall>k. \<not> stop k"
  shows "errs \<le> 50 \<Longrightarrow> fst (backup_lines stop lines recs errs s) =
           (if errs + garbled lines > 50 then Inl UnicodeDecodeError
            else Inr (recs @ chat_records_of lines))"
proof (induction lines arbitrary: recs errs s)
  case Nil
  then show ?case by (simp add: garbled_def chat_records_of_def)
next
  case (Cons line rest)
  show ?case
  proof (cases "replacement_char \<in> set line")
    case True
    show ?thesis
    proof (cases "Suc errs > 50")
      case True
      then show ?thesis using assms \<open>replacement_char \<in> set line\<close>
        by (simp add: garbled_Cons)
    next
      case False
      then show ?thesis
        using assms True Cons.IH [of "Suc errs" "recs @ chat_of line" "tick (next_line s)"]
        by (simp add: garbled_Cons chat_records_of_Cons match_prefixes_chat_of)
    qed
  next
    case False
    then show ?thesis
      using assms Cons.prems Cons.IH [of errs "recs @ chat_of line" "tick (next_line s)"]
      by (simp add: garbled_Cons chat_records_of_Cons match_prefixes_chat_of)
  qed
qed

lemma yielding_Nil: "yielding E fs p [] = []"
  by (simp add: yielding_def)

lemma yielding_Cons:
  "yielding E fs p (enc # encs) =
     (case candidate_result E fs p enc of
        None \<Rightarrow> yielding E fs p encs
      | Some recs \<Rightarrow> ((recs, Some enc), length recs) # yielding E fs p encs)"
  by (simp add: yielding_def split: option.splits)

lemma backup_loop_never:
  assumes "\<forall>k. \<not> stop k"
  shows "fst (backup_loop E stop fs p encs best benc s) =
           first_max (yielding E fs p encs) (best, benc) (length best)"
proof (induction encs arbitrary: best benc s)
  case Nil
  show ?case by (simp add: yielding_Nil first_max_Nil)
next
  case (Cons enc encs)
  have ns: "\<not> stop (polls s)" using assms by simp
  show ?case
  proof (cases "read_lines E fs p enc")
    case (Inl e)
    then have "candidate_result E fs p enc = None" by (simp add: candidate_result_def)
    then show ?thesis using ns Inl Cons.IH [of best benc "tick s"] by (simp add: yielding_Cons)
  next
    case (Inr lines)
    obtain r s' where rs: "backup_lines stop lines [] 0 (tick s) = (r, s')"
      by (cases "backup_lines stop lines [] 0 (tick s)")
    have r: "r = (if garbled lines > 50 then Inl UnicodeDecodeError
                  else Inr (chat_records_of lines))"
      using backup_lines_never [OF assms, of 0 lines "[]" "tick s"] rs by simp
    show ?thesis
    proof (cases "garbled lines > 50")
      case True
      then have "candidate_result E fs p enc = None" using Inr by (simp add: candidate_result_def)
      then show ?thesis using ns Inr rs r True Cons.IH [of best benc s']
        by (simp add: yielding_Cons)
    next
      case False
      then have c: "candidate_result E fs p enc = Some (chat_records_of lines)"
        using Inr by (simp add: candidate_result_def)
      show ?thesis
      proof (cases "length (chat_records_of lines) > length best")
        case True
        then show ?thesis
          using ns Inr rs r False c Cons.IH [of "chat_records_of lines" "Some enc" s']
          by (simp add: yielding_Cons first_max_gt)
      next
        case nb: False
        then show ?thesis
          using ns Inr rs r False c Cons.IH [of best benc s']
          by (simp add: yielding_Cons first_max_le)
      qed
    qed
  qed
qed

lemma first_max_cases:
  "first_max scored dflt lo = dflt \<or>
   (\<exists>c \<in> set scored. first_max scored dflt lo = fst c \<and> snd c = fold max (map snd scored) lo
       \<and> lo < snd c)"
proof (cases "lo < fold max (map snd scored) lo")
  case True
  then obtain c where c: "find (\<lambda>c. snd c = fold max (map snd scored) lo) scored = Some c"
    using find_top_Some by blast
  then have "c \<in> set scored" "snd c = fold max (map snd scored) lo"
    by (auto simp: find_Some_iff)
  then show ?thesis using True c by (auto simp: first_max_def Let_def)
next
  case False
  then show ?thesis by (simp add: first_max_def Let_def)
qed

lemma first_max_top:
  assumes "\<forall>c \<in> set scored. snd c = f (fst c)" and "f dflt = lo"
  shows "f (first_max scored dflt lo) = fold max (map snd scored) lo"
proof (cases "lo < fold max (map snd scored) lo")
  case True
  then obtain c where c: "find (\<lambda>c. snd c = fold max (map snd scored) lo) scored = Some c"
    using find_top_Some by blast
  then have "c \<in> set scored" "snd c = fold max (map snd scored) lo"
    by (auto simp: find_Some_iff)
  then show ?thesis using True c assms(1) by (auto simp: first_max_def Let_def)
next
  case False
  then have "fold max (map snd scored) lo = lo" using fold_max_ge [of lo "map snd scored"] by simp
  then show ?thesis using assms(2) by (simp add: first_max_def Let_def)
qed

lemma yielding_set:
  "set (yielding E fs p encs) =
     {((recs, Some enc), length recs) | recs enc. enc \<in> set encs \<and> candidate_result E fs p enc = Some recs}"
  by (induction encs) (auto simp: yielding_Nil yielding_Cons split: option.splits)

lemma yielding_bound:
  assumes "enc \<in> set encs" and "candidate_result E fs p enc = Some recs"
  shows "length recs \<le> length (fst (first_max (yielding E fs p encs) (best, benc) (length best)))"
proof -
  have "\<forall>c \<in> set (yielding E fs p encs). snd c = (length \<circ> fst) (fst c)"
    by (auto simp: yielding_set)
  then have "(length \<circ> fst) (first_max (yielding E fs p encs) (best, benc) (length best))
      = fold max (map snd (yielding E fs p encs)) (length best)"
    by (rule first_max_top) simp
  moreover have "length recs \<in> set (map snd (yielding E fs p encs))"
    using assms by (force simp: yielding_set)
  ultimately show ?thesis using fold_max_upper [of "length recs"] by simp
qed

lemma yielding_empty_iff:
  "fst (first_max (yielding E fs p encs) ([], None) 0) = [] \<longleftrightarrow>
     (\<forall>enc \<in> set encs. \<forall>recs. candidate_result E fs p enc = Some recs \<longrightarrow> recs = [])"
proof
  assume e: "fst (first_max (yielding E fs p encs) ([], None) 0) = []"
  show "\<forall>enc \<in> set encs. \<forall>recs. candidate_result E fs p enc = Some recs \<longrightarrow> recs = []"
  proof (intro ballI allI impI)
    fix enc recs assume "enc \<in> set encs" "candidate_result E fs p enc = Some recs"
    then have "length recs \<le> length (fst (first_max (yielding E fs p encs) ([], None) (length ([]::ustr list))))"
      by (rule yielding_bound)
    then show "recs = []" using e by simp
  qed
next
  assume a: "\<forall>enc \<in> set encs. \<forall>recs. candidate_result E fs p enc = Some recs \<longrightarrow> recs = []"
  show "fst (first_max (yielding E fs p encs) ([], None) 0) = []"
    using first_max_cases [of "yielding E fs p encs" "([], None)" 0] a
    by (auto simp: yielding_set)
qed

text \<open>
  Claim C6, as the code has it.  When the stop flag is never seen set during the call
  and the file exists, \<open>try_backup_encodings\<close> runs every candidate of the list, in
  order, with the error threshold 50, and returns the records of the first candidate
  that yields the largest number of records; its result is at least as long as the
  records of every candidate, and it is the error for exhausted backup encodings
  exactly when no candidate yields a record.
\<close>

theorem try_backup_encodings_most_records:
  assumes "\<forall>k. \<not> stop k" and "fs file_path = Some content"
  shows "\<exists>best benc s'.
           try_backup_encodings E stop fs file_path s =
             (Inr (file_path, best, if best = [] then Some AllBackupFailed else None), s') \<and>
           (best, benc) = first_max (yielding E fs file_path backup_encodings) ([], None) 0 \<and>
           (\<forall>enc \<in> set backup_encodings. \<forall>recs.
               candidate_result E fs file_path enc = Some recs \<longrightarrow> length recs \<le> length best) \<and>
           (best = [] \<longleftrightarrow>
              (\<forall>enc \<in> set backup_encodings. \<forall>recs.
                  candidate_result E fs file_path enc = Some recs \<longrightarrow> recs = []))"
proof -
  obtain best benc s' where
    l: "backup_loop E stop fs file_path backup_encodings [] None (tick s) = ((best, benc), s')"
    by (metis surj_pair)
  have fm: "(best, benc) = first_max (yielding E fs file_path backup_encodings) ([], None) 0"
    using backup_loop_never [OF assms(1), of E fs file_path backup_encodings "[]" None "tick s"] l
    by simp
  have ns: "\<not> stop (polls s)" using assms(1) by simp
  have 1: "try_backup_encodings E stop fs file_path s =
             (Inr (file_path, best, if best = [] then Some AllBackupFailed else None), s')"
    using ns assms(2) l by (simp add: try_backup_encodings_def)
  have 2: "\<forall>enc \<in> set backup_encodings. \<forall>recs.
               candidate_result E fs file_path enc = Some recs \<longrightarrow> length recs \<le> length best"
  proof (intro ballI allI impI)
    fix enc recs
    assume "enc \<in> set backup_encodings" "candidate_result E fs file_path enc = Some recs"
    then have "length recs \<le> length (fst (first_max (yielding E fs file_path backup_encodings)
        ([], None) (length ([]::ustr list))))"
      by (rule yielding_bound)
    then show "length recs \<le> length best" using fm [symmetric] by simp
  qed
  have 3: "best = [] \<longleftrightarrow>
              (\<forall>enc \<in> set backup_encodings. \<forall>recs.
                  candidate_result E fs file_path enc = Some recs \<longrightarrow> recs = [])"
    using yielding_empty_iff [of E fs file_path backup_encodings] fm [symmetric] by simp
  show ?thesis using 1 fm 2 3 by blast
qed

lemma chat_log_lines:
  "read_lines sample_env sample_fs log_path ''utf-8'' = Inr [chat_line]"
  by (simp add: read_lines_def sample_fs_def sample_env_def sample_decode_stream_def sample_decode_def
      startswith_def chat_log_def
      chat_line_def ustr_of_def)

lemma try_backup_sample:
  "fst (try_backup_encodings sample_env never sample_fs log_path init) =
     Inr (log_path,
          [ustr_of ''[12:00:00] [Server thread/INFO] [net.minecraft.server.MinecraftServer/]: <Alice> hello''],
          None)"
  by (simp add: try_backup_encodings_def backup_encodings_def read_lines_def sample_fs_def
      sample_env_def sample_decode_stream_def sample_decode_def chat_log_def never_def init_def tick_def next_line_def
      self_prefixes_def py_in_def py_split1_def strip_def is_space_def startswith_def
      ustr_of_def replacement_char_def log_path_def)

theorem try_backup_encodings_most_records_witness:
  "(\<forall>k. \<not> never k) \<and> sample_fs log_path = Some chat_log \<and>
   (\<exists>best benc s'.
       try_backup_encodings sample_env never sample_fs log_path init =
         (Inr (log_path, best, if best = [] then Some AllBackupFailed else None), s') \<and>
       (best, benc) = first_max (yielding sample_env sample_fs log_path backup_encodings) ([], None) 0) \<and>
   fst (try_backup_encodings sample_env never sample_fs log_path init) =
     Inr (log_path,
          [ustr_of ''[12:00:00] [Server thread/INFO] [net.minecraft.server.MinecraftServer/]: <Alice> hello''],
          None)"
proof -
  have h1: "\<forall>k. \<not> never k" by (simp add: never_def)
  have h2: "sample_fs log_path = Some chat_log" by (simp add: sample_fs_def)
  have "\<exists>best benc s'.
       try_backup_encodings sample_env never sample_fs log_path init =
         (Inr (log_path, best, if best = [] then Some AllBackupFailed else None), s') \<and>
       (best, benc) = first_max (yielding sample_env sample_fs log_path backup_encodings) ([], None) 0"
    using try_backup_encodings_most_records [where stop = never and fs = sample_fs
        and file_path = log_path and content = chat_log and E = sample_env and s = init] h1 h2
    by blast
  then show ?thesis using h1 h2 try_backup_sample by blast
qed

text \<open>
  Claim C6 as stated, for every call, fails under cancellation.  With the flag set on
  entry the function returns the stopped result without running a candidate.  With the
  flag seen set at the poll for the first line of the first candidate, the loop over the
  lines and then the loop over the candidates end, and the function returns the error
  for exhausted backup encodings, although \<open>utf-8\<close> yields a record when it is run to
  the end.
\<close>

lemma candidate_utf8_sample:
  "candidate_result sample_env sample_fs log_path ''utf-8'' = Some [strip chat_line]"
  by (simp add: candidate_result_def chat_log_lines garbled_def chat_records_of_def chat_of_def
      chat_line_def chat_log_def replacement_char_def ustr_of_def self_prefixes_def py_in_def
      py_split1_def strip_def is_space_def startswith_def)

theorem try_backup_encodings_cancel_counterexample:
  "try_backup_encodings sample_env (stop_from 0) sample_fs log_path init
     = (Inr (log_path, [], Some Stopped), \<lparr>polls = 1, nread = 0, lines_read = 0\<rparr>) \<and>
   try_backup_encodings sample_env (stop_from 2) sample_fs log_path init
     = (Inr (log_path, [], Some AllBackupFailed), \<lparr>polls = 4, nread = 0, lines_read = 1\<rparr>) \<and>
   candidate_result sample_env sample_fs log_path ''utf-8'' = Some [strip chat_line]"
proof -
  have a: "try_backup_encodings sample_env (stop_from 0) sample_fs log_path init
     = (Inr (log_path, [], Some Stopped), \<lparr>polls = 1, nread = 0, lines_read = 0\<rparr>)"
    by (simp add: try_backup_encodings_def stop_from_def init_def tick_def)
  have b: "try_backup_encodings sample_env (stop_from 2) sample_fs log_path init
     = (Inr (log_path, [], Some AllBackupFailed), \<lparr>polls = 4, nread = 0, lines_read = 1\<rparr>)"
    by (simp add: try_backup_encodings_def backup_encodings_def chat_log_lines sample_fs_def
        stop_from_def init_def tick_def next_line_def)
  show ?thesis using a b candidate_utf8_sample by simp
qed

lemma backup_loop_prefix:
  "backup_loop E stop fs p pre best benc s = ((b, e), s') \<Longrightarrow>
   fst (backup_loop E stop fs p (pre @ rest) best benc s) = (b, e) \<or>
   backup_loop E stop fs p (pre @ rest) best benc s = backup_loop E stop fs p rest b e s'"
proof (induction pre arbitrary: best benc s)
  case Nil
  then show ?case by simp
next
  case (Cons enc pre)
  show ?case
  proof (cases "stop (polls s)")
    case True
    then show ?thesis using Cons.prems by simp
  next
    case False
    show ?thesis
    proof (cases "read_lines E fs p enc")
      case (Inl x)
      then show ?thesis using False Cons.prems Cons.IH [of best benc "tick s"] by simp
    next
      case (Inr lines)
      obtain r s1 where rs: "backup_lines stop lines [] 0 (tick s) = (r, s1)"
        by (cases "backup_lines stop lines [] 0 (tick s)")
      show ?thesis
      proof (cases r)
        case (Inl x)
        then show ?thesis using False Inr rs Cons.prems Cons.IH [of best benc s1] by simp
      next
        case r: (Inr recs)
        show ?thesis
        proof (cases "length recs > length best")
          case True
          then show ?thesis
            using False Inr rs r Cons.prems Cons.IH [of recs "Some enc" s1] by simp
        next
          case nb: False
          then show ?thesis
            using False Inr rs r Cons.prems Cons.IH [of best benc s1] by simp
        qed
      qed
    qed
  qed
qed

text \<open>
  Claim C10.  Let the loop over the candidates before \<open>enc\<close> have ended with a
  non-empty best record list, and let the poll of the stop flag at \<open>enc\<close> see the flag
  set.  Then \<open>try_backup_encodings\<close> returns that best list with no error value: the
  result is an ordinary success, not the stopped result.
\<close>

theorem try_backup_encodings_cancelled:
  assumes "\<not> stop (polls s)" and "fs file_path = Some content"
    and "backup_encodings = pre @ enc # post"
    and "backup_loop E stop fs file_path pre [] None (tick s) = ((best, benc), s')"
    and "best \<noteq> []" and "stop (polls s')"
  shows "fst (try_backup_encodings E stop fs file_path s) = Inr (file_path, best, None)"
proof -
  have "backup_loop E stop fs file_path (enc # post) best benc s' = ((best, benc), tick s')"
    using assms(6) by simp
  then have "fst (backup_loop E stop fs file_path (pre @ enc # post) [] None (tick s)) = (best, benc)"
    using backup_loop_prefix [OF assms(4), of "enc # post"] by auto
  then obtain s2 where
    "backup_loop E stop fs file_path backup_encodings [] None (tick s) = ((best, benc), s2)"
    using assms(3) by (metis prod.collapse)
  then show ?thesis using assms(1,2,5) by (simp add: try_backup_encodings_def)
qed


lemma backup_loop_sample:
  "backup_loop sample_env (stop_from 3) sample_fs log_path [''utf-8''] [] None (tick init)
     = (([strip chat_line], Some ''utf-8''), \<lparr>polls = 3, nread = 0, lines_read = 1\<rparr>)"
  by (simp add: chat_log_lines stop_from_def init_def tick_def next_line_def chat_line_def
      chat_log_def replacement_char_def ustr_of_def self_prefixes_def py_in_def py_split1_def
      strip_def is_space_def startswith_def)

theorem try_backup_encodings_cancelled_witness:
  "\<not> stop_from 3 (polls init) \<and> sample_fs log_path = Some chat_log \<and>
   backup_encodings = [''utf-8''] @ ''gbk'' # drop 2 backup_encodings \<and>
   backup_loop sample_env (stop_from 3) sample_fs log_path [''utf-8''] [] None (tick init)
     = (([strip chat_line], Some ''utf-8''), \<lparr>polls = 3, nread = 0, lines_read = 1\<rparr>) \<and>
   stop_from 3 (polls \<lparr>polls = 3, nread = 0, lines_read = 1\<rparr>) \<and>
   fst (try_backup_encodings sample_env (stop_from 3) sample_fs log_path init)
     = Inr (log_path, [strip chat_line], None)"
proof -
  have h1: "\<not> stop_from 3 (polls init)" by (simp add: stop_from_def init_def)
  have h2: "sample_fs log_path = Some chat_log" by (simp add: sample_fs_def)
  have h3: "backup_encodings = [''utf-8''] @ ''gbk'' # drop 2 backup_encodings"
    by (simp add: backup_encodings_def)
  have h5: "[strip chat_line] \<noteq> []" by simp
  have h6: "stop_from 3 (polls \<lparr>polls = 3, nread = 0, lines_read = 1\<rparr>)"
    by (simp add: stop_from_def)
  have "fst (try_backup_encodings sample_env (stop_from 3) sample_fs log_path init)
     = Inr (log_path, [strip chat_line], None)"
    using try_backup_encodings_cancelled [where stop = "stop_from 3" and s = init
        and fs = sample_fs and file_path = log_path and content = chat_log
        and pre = "[''utf-8'']" and enc = "''gbk''" and post = "drop 2 backup_encodings"
        and E = sample_env and best = "[strip chat_line]" and benc = "Some ''utf-8''"
        and s' = "\<lparr>polls = 3, nread = 0, lines_read = 1\<rparr>"]
      h1 h2 h3 backup_loop_sample h5 h6 by blast
  then show ?thesis using h1 h2 h3 backup_loop_sample h6 by blast
qed

section \<open>process\_log: the disk space check\<close>

declare count_loop.simps [simp del]

lemma select_loop_state:
  "nread (snd (select_loop E stop sample encs be bs s)) = nread s \<and>
   lines_read (snd (select_loop E stop sample encs be bs s)) = lines_read s"
proof (induction encs arbitrary: be bs s)
  case Nil
  show ?case by simp
next
  case (Cons enc encs)
  show ?case
    using Cons.IH [of be bs "tick s"] Cons.IH [of enc _ "tick s"]
    by (auto simp: tick_def split: sum.splits)
qed

lemma detect_encoding_state:
  assumes "fs file_path = Some content"
  shows "nread s + min 4 (length content) \<le> nread (snd (detect_encoding E stop fs file_path s)) \<and>
         lines_read (snd (detect_encoding E stop fs file_path s)) = lines_read s"
  using assms select_loop_state [of E stop "take 50000 content" backup_encodings "''utf-8''" "float_zero E"]
  by (auto simp: detect_encoding_def select_best_encoding_def did_read_def Let_def min_def
      split: option.splits)

lemma count_loop_mono:
  "nread s \<le> nread (snd (count_loop stop rest lines s)) \<and>
   lines_read (snd (count_loop stop rest lines s)) = lines_read s"
proof (induction stop rest lines s rule: count_loop.induct)
  case (1 stop rest lines s)
  show ?case
  proof (cases "take buf_size rest = []")
    case True
    then show ?thesis by (simp add: count_loop.simps [of stop rest lines s])
  next
    case False
    show ?thesis
    proof (cases "stop (polls (did_read (length (take buf_size rest)) s))")
      case True
      then show ?thesis using False
        by (simp add: count_loop.simps [of stop rest lines s] tick_def did_read_def)
    next
      case ns: False
      then show ?thesis using False "1.IH" [OF False ns]
        by (simp add: count_loop.simps [of stop rest lines s] tick_def did_read_def)
    qed
  qed
qed

lemma count_loop_first:
  "nread s + min buf_size (length rest) \<le> nread (snd (count_loop stop rest lines s))"
proof (cases "take buf_size rest = []")
  case True
  then have "rest = []" by (simp add: buf_size_def)
  then show ?thesis using count_loop_mono [of s stop rest lines] by simp
next
  case False
  define s1 where "s1 = tick (did_read (length (take buf_size rest)) s)"
  have n1: "nread s1 = nread s + min buf_size (length rest)"
    by (simp add: s1_def tick_def did_read_def min.commute)
  show ?thesis
  proof (cases "stop (polls (did_read (length (take buf_size rest)) s))")
    case True
    then have "snd (count_loop stop rest lines s) = s1"
      using False by (simp add: count_loop.simps [of stop rest lines s] s1_def)
    then show ?thesis using n1 by simp
  next
    case ns: False
    have "snd (count_loop stop rest lines s)
        = snd (count_loop stop (drop buf_size rest)
                 (lines + count_list (take buf_size rest) (CHR 0x0A)) s1)"
      using False ns by (simp add: count_loop.simps [of stop rest lines s] s1_def)
    moreover have "nread s1 \<le> nread (snd (count_loop stop (drop buf_size rest)
                 (lines + count_list (take buf_size rest) (CHR 0x0A)) s1))"
      using count_loop_mono by blast
    ultimately show ?thesis using n1 by simp
  qed
qed

text \<open>
  Claim C1, as the code has it.  When the stop flag is not set on entry, the file
  exists and the free space of its volume is below 100 MiB, \<open>process_log\<close> returns
  the error for insufficient disk space with an empty record list, and no line of the
  file has been taken for extraction.  The check comes after \<open>detect_encoding\<close> and
  \<open>count_lines\<close>, which have read the file in binary mode: at least the header of up
  to 4 bytes and the first buffer of up to 1 MiB.
\<close>

theorem process_log_low_disk:
  assumes "\<not> stop (polls s)" and "fs file_path = Some content"
    and "disk_free E (dirname file_path) = Some free" and "free < min_free"
  shows "\<exists>s'. process_log E stop fs file_path s =
                 (Inr (file_path, [], Some (DiskSpace free)), s') \<and>
              lines_read s' = lines_read s \<and>
              nread s + min 4 (length content) + min buf_size (length content) \<le> nread s'"
proof -
  obtain encoding s1 where d: "detect_encoding E stop fs file_path (tick s) = (encoding, s1)"
    by (cases "detect_encoding E stop fs file_path (tick s)")
  obtain n s2 where c: "count_lines stop fs file_path s1 = (n, s2)"
    by (cases "count_lines stop fs file_path s1")
  have s1: "nread (tick s) + min 4 (length content) \<le> nread s1" "lines_read s1 = lines_read (tick s)"
    using detect_encoding_state [where fs = fs and file_path = file_path and content = content
        and s = "tick s" and E = E and stop = stop] assms(2) d by simp_all
  have c': "count_loop stop content 0 s1 = (n, s2)"
    using c assms(2) by (simp add: count_lines_def)
  have s2: "nread s1 + min buf_size (length content) \<le> nread s2" "lines_read s2 = lines_read s1"
    using count_loop_first [of s1 content stop 0] count_loop_mono [of s1 stop content 0] c'
    by simp_all
  have "process_log E stop fs file_path s = (Inr (file_path, [], Some (DiskSpace free)), s2)"
    using assms d c by (simp add: process_log_def)
  moreover have "lines_read s2 = lines_read s" using s1 s2 by (simp add: tick_def)
  moreover have "nread s + min 4 (length content) + min buf_size (length content) \<le> nread s2"
    using s1 s2 by (simp add: tick_def)
  ultimately show ?thesis by blast
qed


theorem process_log_low_disk_witness:
  "\<not> never (polls init) \<and> sample_fs log_path = Some chat_log \<and>
   disk_free low_disk_env (dirname log_path) = Some 52428800 \<and> 52428800 < min_free \<and>
   (\<exists>s'. process_log low_disk_env never sample_fs log_path init =
            (Inr (log_path, [], Some (DiskSpace 52428800)), s') \<and>
          lines_read s' = lines_read init \<and>
          nread init + min 4 (length chat_log) + min buf_size (length chat_log) \<le> nread s')"
proof -
  have h1: "\<not> never (polls init)" by (simp add: never_def)
  have h2: "sample_fs log_path = Some chat_log" by (simp add: sample_fs_def)
  have h3: "disk_free low_disk_env (dirname log_path) = Some 52428800"
    by (simp add: low_disk_env_def)
  have h4: "(52428800::nat) < min_free" by (simp add: min_free_def)
  show ?thesis
    using process_log_low_disk [where stop = never and s = init and fs = sample_fs
        and file_path = log_path and content = chat_log and E = low_disk_env
        and free = 52428800] h1 h2 h3 h4 by blast
qed

text \<open>
  Claim C1 as stated fails: on a volume with 50 MiB free, \<open>process_log\<close> returns the
  disk space error for the 87-byte log file after 178 bytes have been read from it (4
  for the header, 87 for the detection sample, 87 for the line count).
\<close>

theorem process_log_low_disk_counterexample:
  "process_log low_disk_env never sample_fs log_path init =
     (Inr (log_path, [], Some (DiskSpace 52428800)),
      \<lparr>polls = 2, nread = 178, lines_read = 0\<rparr>) \<and>
   nread (snd (process_log low_disk_env never sample_fs log_path init)) \<noteq> 0"
proof -
  have "process_log low_disk_env never sample_fs log_path init =
     (Inr (log_path, [], Some (DiskSpace 52428800)),
      \<lparr>polls = 2, nread = 178, lines_read = 0\<rparr>)"
    by (simp add: process_log_def detect_encoding_def bom_encodings_def startswith_def
        low_disk_env_def sample_env_def sample_chardet_def sample_fs_def chat_log_def
        lower_def never_def init_def tick_def did_read_def count_lines_def count_loop.simps
        buf_size_def min_free_def log_path_def dirname_def)
  then show ?thesis by simp
qed

section \<open>process\_log: cancellation during extraction\<close>

lemma process_lines_cancel:
  assumes "errs + garbled pre \<le> 100"
    and "\<forall>j<length pre. \<not> stop (polls s + j)" and "stop (polls s + length pre)"
  shows "process_lines stop (pre @ line # rest) recs errs s =
           (Cancelled, s\<lparr>polls := polls s + length pre + 1,
                          lines_read := lines_read s + length pre + 1\<rparr>)"
  using assms
proof (induction pre arbitrary: recs errs s)
  case Nil
  then show ?case by (simp add: tick_def next_line_def)
next
  case (Cons l pre)
  let ?s1 = "tick (next_line s)"
  have ns: "\<not> stop (polls s)" using Cons.prems(2) by auto
  have p1: "polls ?s1 = Suc (polls s)" by (simp add: tick_def next_line_def)
  have a2: "\<forall>j<length pre. \<not> stop (polls ?s1 + j)"
  proof (intro allI impI)
    fix j assume "j < length pre"
    then have "\<not> stop (polls s + Suc j)" using Cons.prems(2) by auto
    then show "\<not> stop (polls ?s1 + j)" using p1 by simp
  qed
  have a3: "stop (polls ?s1 + length pre)" using Cons.prems(3) p1 by simp
  show ?case
  proof (cases "replacement_char \<in> set l")
    case True
    then have a1: "Suc errs + garbled pre \<le> 100" using Cons.prems(1) by (simp add: garbled_Cons)
    then have "\<not> Suc errs > 100" by simp
    then show ?thesis
      using ns True Cons.IH [OF a1 a2 a3, of "recs @ chat_of l"]
      by (simp add: match_prefixes_chat_of tick_def next_line_def)
  next
    case False
    then have a1: "errs + garbled pre \<le> 100" using Cons.prems(1) by (simp add: garbled_Cons)
    show ?thesis
      using ns False Cons.IH [OF a1 a2 a3, of "recs @ chat_of l"]
      by (simp add: match_prefixes_chat_of tick_def next_line_def)
  qed
qed

text \<open>
  Without cancellation and with at most 100 lines containing the replacement character,
  the loop of \<open>process_log\<close> completes with the records of the lines that pass the
  prefix test, in line order.
\<close>

lemma process_lines_complete:
  assumes "\<forall>k. \<not> stop k"
  shows "errs + garbled lines \<le> 100 \<Longrightarrow>
         fst (process_lines stop lines recs errs s) = Completed (recs @ chat_records_of lines)"
proof (induction lines arbitrary: recs errs s)
  case Nil
  show ?case by (simp add: chat_records_of_def)
next
  case (Cons line rest)
  show ?case
  proof (cases "replacement_char \<in> set line")
    case True
    then have a: "Suc errs + garbled rest \<le> 100" using Cons.prems by (simp add: garbled_Cons)
    then have "\<not> Suc errs > 100" by simp
    then show ?thesis
      using assms True Cons.IH [OF a, of "recs @ chat_of line" "tick (next_line s)"]
      by (simp add: chat_records_of_Cons match_prefixes_chat_of)
  next
    case False
    then have a: "errs + garbled rest \<le> 100" using Cons.prems by (simp add: garbled_Cons)
    show ?thesis
      using assms False Cons.IH [OF a, of "recs @ chat_of line" "tick (next_line s)"]
      by (simp add: chat_records_of_Cons match_prefixes_chat_of)
  qed
qed

text \<open>
  Claim C2, as the code has it, for the first extraction pass.  Let \<open>process_log\<close> have
  passed the entry check, the detection, the line count and the disk space check, let
  the file be readable under the detected encoding, and let the stop flag be seen set at
  the poll for the line after \<open>pre\<close>, not before, where at most 100 lines of \<open>pre\<close>
  contain the replacement character, so that the pass has not been handed over to the
  backup encodings.  Then \<open>process_log\<close> returns at that poll, with an empty record list
  and the stopped message as its error value, whatever was collected from \<open>pre\<close>; the
  worker stores this result with the status for a failure, as it does for every result
  that has an error value.
\<close>

theorem process_log_stopped:
  assumes "\<not> stop (polls s)"
    and "files a file_path = Some content"
    and "detect_encoding E stop (files a) file_path (tick s) = (encoding, s1)"
    and "count_lines stop (files a) file_path s1 = (n, s2)"
    and "disk_free E (dirname file_path) = Some free" and "min_free \<le> free"
    and "read_lines E (files a) file_path encoding = Inr (pre @ line # rest)"
    and "garbled pre \<le> 100"
    and "\<forall>j<length pre. \<not> stop (polls s2 + j)" and "stop (polls s2 + length pre)"
  shows "process_log E stop (files a) file_path s =
           (Inr (file_path, [], Some Stopped),
            s2\<lparr>polls := polls s2 + length pre + 1,
                lines_read := lines_read s2 + length pre + 1\<rparr>) \<and>
         map_of (results (fst (worker_task E stop (Process file_path sa) a s))) file_path =
           Some \<lparr>records = [], error = Some Stopped, status = Failure, source_archive = sa\<rparr>"
proof -
  have c: "process_lines stop (pre @ line # rest) [] 0 s2 =
           (Cancelled, s2\<lparr>polls := polls s2 + length pre + 1,
                           lines_read := lines_read s2 + length pre + 1\<rparr>)"
    using assms(8,9,10) by (intro process_lines_cancel) simp_all
  have p: "process_log E stop (files a) file_path s =
           (Inr (file_path, [], Some Stopped),
            s2\<lparr>polls := polls s2 + length pre + 1,
                lines_read := lines_read s2 + length pre + 1\<rparr>)"
    using assms(1-7) c by (simp add: process_log_def)
  then have "map_of (results (fst (worker_task E stop (Process file_path sa) a s))) file_path =
           Some \<lparr>records = [], error = Some Stopped, status = Failure, source_archive = sa\<rparr>"
    by (simp add: worker_task_def store_result_def update_conv')
  then show ?thesis using p by simp
qed

lemma detect_sample:
  "detect_encoding sample_env stop sample_fs log_path (tick init)
     = (''utf-8'', \<lparr>polls = Suc 0, nread = 91, lines_read = 0\<rparr>)"
  by (simp add: detect_encoding_def bom_encodings_def startswith_def sample_env_def
      sample_chardet_def sample_fs_def chat_log_def lower_def init_def tick_def did_read_def)

lemma count_sample:
  "count_lines (stop_from 2) sample_fs log_path \<lparr>polls = Suc 0, nread = 91, lines_read = 0\<rparr>
     = (1, \<lparr>polls = 2, nread = 178, lines_read = 0\<rparr>)"
  by (simp add: count_lines_def count_loop.simps buf_size_def sample_fs_def chat_log_def
      stop_from_def tick_def did_read_def)

lemma lines_sample_stopped:
  "process_lines (stop_from 2) [chat_line] [] 0 \<lparr>polls = 2, nread = 178, lines_read = 0\<rparr>
     = (Cancelled, \<lparr>polls = 3, nread = 178, lines_read = 1\<rparr>)"
  by (simp add: stop_from_def tick_def next_line_def)

lemma process_log_sample_stopped:
  "process_log sample_env (stop_from 2) sample_fs log_path init
     = (Inr (log_path, [], Some Stopped), \<lparr>polls = 3, nread = 178, lines_read = 1\<rparr>)"
proof -
  have 1: "\<not> stop_from 2 (polls init)" by (simp add: stop_from_def init_def)
  have 2: "sample_fs log_path = Some chat_log" by (simp add: sample_fs_def)
  have 3: "disk_free sample_env (dirname log_path) = Some 209715200"
    by (simp add: sample_env_def)
  have 4: "\<not> (209715200::nat) < min_free" by (simp add: min_free_def)
  show ?thesis
    using 1 2 3 4
    by (simp add: process_log_def detect_sample count_sample chat_log_lines lines_sample_stopped
        del: process_lines.simps)
qed

text \<open>
  An instance on the log file of two lines: the flag is seen set at the poll for the
  second line, after the first line has given a record, and the record is dropped.
\<close>

lemma two_detect:
  "detect_encoding sample_env stop two_fs log_path (tick init)
     = (''utf-8'', \<lparr>polls = Suc 0, nread = 178, lines_read = 0\<rparr>)"
  by (simp add: detect_encoding_def bom_encodings_def startswith_def sample_env_def
      sample_chardet_def two_fs_def log_path_def chat_log_def lower_def init_def tick_def
      did_read_def)

lemma two_count:
  "count_lines (stop_from 3) two_fs log_path \<lparr>polls = Suc 0, nread = 178, lines_read = 0\<rparr>
     = (2, \<lparr>polls = 2, nread = 352, lines_read = 0\<rparr>)"
  by (simp add: count_lines_def count_loop.simps buf_size_def two_fs_def log_path_def
      chat_log_def stop_from_def tick_def did_read_def)

lemma two_lines:
  "read_lines sample_env two_fs log_path ''utf-8'' = Inr [chat_line, chat_line]"
  by (simp add: read_lines_def two_fs_def log_path_def sample_env_def sample_decode_stream_def
      sample_decode_def startswith_def chat_log_def chat_line_def ustr_of_def)

lemma chat_of_chat_line: "chat_of chat_line = [strip chat_line]"
  by (simp add: chat_of_def chat_line_def chat_log_def ustr_of_def self_prefixes_def py_in_def
      py_split1_def strip_def is_space_def startswith_def)

lemma garbled_chat_line: "garbled [chat_line] = 0"
  by (simp add: garbled_def chat_line_def chat_log_def ustr_of_def replacement_char_def)

theorem process_log_stopped_witness:
  "\<not> stop_from 3 (polls init) \<and>
   files (empty_app two_fs) log_path = Some (chat_log @ chat_log) \<and>
   detect_encoding sample_env (stop_from 3) (files (empty_app two_fs)) log_path (tick init)
     = (''utf-8'', \<lparr>polls = Suc 0, nread = 178, lines_read = 0\<rparr>) \<and>
   count_lines (stop_from 3) (files (empty_app two_fs)) log_path
       \<lparr>polls = Suc 0, nread = 178, lines_read = 0\<rparr>
     = (2, \<lparr>polls = 2, nread = 352, lines_read = 0\<rparr>) \<and>
   disk_free sample_env (dirname log_path) = Some 209715200 \<and> min_free \<le> 209715200 \<and>
   read_lines sample_env (files (empty_app two_fs)) log_path ''utf-8''
     = Inr ([chat_line] @ chat_line # []) \<and>
   garbled [chat_line] \<le> 100 \<and> chat_of chat_line = [strip chat_line] \<and>
   \<not> stop_from 3 (polls \<lparr>polls = 2, nread = 352, lines_read = 0\<rparr> + 0) \<and>
   stop_from 3 (polls \<lparr>polls = 2, nread = 352, lines_read = 0\<rparr> + length [chat_line]) \<and>
   process_log sample_env (stop_from 3) (files (empty_app two_fs)) log_path init =
     (Inr (log_path, [], Some Stopped), \<lparr>polls = 4, nread = 352, lines_read = 2\<rparr>) \<and>
   map_of (results (fst (worker_task sample_env (stop_from 3) (Process log_path None)
                           (empty_app two_fs) init))) log_path =
     Some \<lparr>records = [], error = Some Stopped, status = Failure, source_archive = None\<rparr>"
proof -
  have f: "files (empty_app two_fs) = two_fs" by (simp add: empty_app_def)
  have h1: "\<not> stop_from 3 (polls init)" by (simp add: stop_from_def init_def)
  have h2: "files (empty_app two_fs) log_path = Some (chat_log @ chat_log)"
    by (simp add: f two_fs_def log_path_def)
  have h3: "detect_encoding sample_env (stop_from 3) (files (empty_app two_fs)) log_path
              (tick init) = (''utf-8'', \<lparr>polls = Suc 0, nread = 178, lines_read = 0\<rparr>)"
    by (simp add: f two_detect)
  have h4: "count_lines (stop_from 3) (files (empty_app two_fs)) log_path
              \<lparr>polls = Suc 0, nread = 178, lines_read = 0\<rparr>
            = (2, \<lparr>polls = 2, nread = 352, lines_read = 0\<rparr>)"
    by (simp add: f two_count)
  have h5: "disk_free sample_env (dirname log_path) = Some 209715200"
    by (simp add: sample_env_def)
  have h6: "min_free \<le> 209715200" by (simp add: min_free_def)
  have h7: "read_lines sample_env (files (empty_app two_fs)) log_path ''utf-8''
              = Inr ([chat_line] @ chat_line # [])"
    by (simp add: f two_lines)
  have h8: "garbled [chat_line] \<le> 100" by (simp add: garbled_chat_line)
  have h9: "\<forall>j<length [chat_line].
              \<not> stop_from 3 (polls \<lparr>polls = 2, nread = 352, lines_read = 0\<rparr> + j)"
    by (simp add: stop_from_def)
  have h9': "\<not> stop_from 3 (polls \<lparr>polls = 2, nread = 352, lines_read = 0\<rparr> + 0)"
    by (simp add: stop_from_def)
  have h10: "stop_from 3 (polls \<lparr>polls = 2, nread = 352, lines_read = 0\<rparr> + length [chat_line])"
    by (simp add: stop_from_def)
  have "process_log sample_env (stop_from 3) (files (empty_app two_fs)) log_path init =
          (Inr (log_path, [], Some Stopped),
           \<lparr>polls = 2, nread = 352, lines_read = 0\<rparr>
             \<lparr>polls := polls \<lparr>polls = 2, nread = 352, lines_read = 0\<rparr> + length [chat_line] + 1,
              lines_read := lines_read \<lparr>polls = 2, nread = 352, lines_read = 0\<rparr>
                              + length [chat_line] + 1\<rparr>) \<and>
        map_of (results (fst (worker_task sample_env (stop_from 3) (Process log_path None)
                                (empty_app two_fs) init))) log_path =
          Some \<lparr>records = [], error = Some Stopped, status = Failure, source_archive = None\<rparr>"
    using process_log_stopped [where stop = "stop_from 3" and s = init
        and a = "empty_app two_fs" and file_path = log_path and content = "chat_log @ chat_log"
        and E = sample_env and encoding = "''utf-8''"
        and ?s1.0 = "\<lparr>polls = Suc 0, nread = 178, lines_read = 0\<rparr>" and n = 2
        and ?s2.0 = "\<lparr>polls = 2, nread = 352, lines_read = 0\<rparr>" and free = 209715200
        and pre = "[chat_line]" and line = chat_line and rest = "[]" and sa = None]
      h1 h2 h3 h4 h5 h6 h7 h8 h9 h10 by blast
  then show ?thesis using h1 h2 h3 h4 h5 h6 h7 h8 h9' h10 chat_of_chat_line by simp
qed

text \<open>
  Claim C2 as stated fails in its last part: with the flag seen set at the poll for the
  first line, the result that the worker stores for the file has the status for a
  failure.
\<close>

theorem process_log_stopped_counterexample:
  "fst (process_log sample_env (stop_from 2) sample_fs log_path init)
     = Inr (log_path, [], Some Stopped) \<and>
   map_option status
     (map_of (results (fst (worker_task sample_env (stop_from 2) (Process log_path None)
                              (empty_app sample_fs) init))) log_path) = Some Failure"
  by (simp add: worker_task_def store_result_def empty_app_def process_log_sample_stopped)

section \<open>The worker and archive members\<close>









end
